theory Spec2Isabelle
  imports Main "HOL-Library.Word"
begin

section \<open>The scheduler interface: error values\<close>

text \<open>
  The sentinel errors of package \<open>scheduler\<close> that \<open>services/scheduler/standard/service.go\<close>
  returns. They are pairwise distinct values; only their identity matters here.
\<close>

datatype error =
    ErrNoJobName
  | ErrNoJobFunc
  | ErrNoRuntimeFunc
  | ErrJobAlreadyExists
  | ErrNoSuchJob
  | ErrJobRunning
  | ErrJobFinalised

text \<open>
  What a call of a Go function can do from the point of view of its caller: return a value,
  block (on a full channel or on a held mutex), or panic.
\<close>

datatype 'a outcome = Returns 'a | Blocks | Panics

section \<open>Channels of capacity one\<close>

text \<open>
  \<open>make(chan struct{}, 1)\<close>: the elements carry no data, so a channel is the number of
  buffered notifications, whether it has been closed, and the number of senders parked on it.
  A send on a closed channel panics, a send on a full channel blocks, a close of a closed
  channel panics, and a receive is ready when a notification is buffered or the channel is
  closed.
\<close>

record chan =
  buf :: nat
  is_closed :: bool
  sendq :: nat

definition make_chan :: chan where
  "make_chan = \<lparr>buf = 0, is_closed = False, sendq = 0\<rparr>"

definition chan_send :: "chan \<Rightarrow> chan outcome" where
  "chan_send c =
     (if is_closed c then Panics
      else if buf c < 1 then Returns (c\<lparr>buf := Suc (buf c)\<rparr>)
      else Blocks)"

definition chan_park :: "chan \<Rightarrow> chan" where
  "chan_park c = c\<lparr>sendq := Suc (sendq c)\<rparr>"

definition chan_close :: "chan \<Rightarrow> chan outcome" where
  "chan_close c = (if is_closed c then Panics else Returns (c\<lparr>is_closed := True\<rparr>))"

definition chan_ready :: "chan \<Rightarrow> bool" where
  "chan_ready c = (0 < buf c \<or> is_closed c)"

text \<open>
  A receive takes one buffered notification; when a sender is parked on the full buffer its
  notification takes the freed slot at once and the sender resumes.
\<close>

definition chan_recv :: "chan \<Rightarrow> chan" where
  "chan_recv c =
     (if 0 < buf c
      then (if 0 < sendq c then c\<lparr>sendq := sendq c - 1\<rparr> else c\<lparr>buf := buf c - 1\<rparr>)
      else c)"

section \<open>The job record\<close>

text \<open>
  \<open>type job struct\<close>. \<open>stateLock\<close> is True while the mutex is held across a step of the
  model, which only happens while a sender is parked inside its critical section; every other
  critical section is one atomic step.
\<close>

record job =
  stateLock :: bool
  active :: bool
  finalised :: bool
  periodic :: bool
  cancelCh :: chan
  runCh :: chan

definition new_job :: "bool \<Rightarrow> job" where
  "new_job p = \<lparr>stateLock = False, active = False, finalised = False, periodic = p,
                cancelCh = make_chan, runCh = make_chan\<rparr>"

text \<open>
  \<open>func finaliseJob(job *job)\<close>: lock, store finalised, close the cancel channel, close the run
  channel, unlock. Closing a closed channel panics; the record returned with \<open>Panics\<close> is the
  one the statements before the panic have left: finalised is stored, and the cancel channel
  is closed when the panic came from the run channel.
\<close>

definition finaliseJob :: "job \<Rightarrow> unit outcome \<times> job" where
  "finaliseJob j =
     (if stateLock j then (Blocks, j)
      else case chan_close (cancelCh j) of
             Returns c \<Rightarrow>
               (case chan_close (runCh j) of
                  Returns r \<Rightarrow> (Returns (), j\<lparr>finalised := True, cancelCh := c, runCh := r\<rparr>)
                | Blocks \<Rightarrow> (Blocks, j\<lparr>finalised := True, cancelCh := c\<rparr>)
                | Panics \<Rightarrow> (Panics, j\<lparr>finalised := True, cancelCh := c\<rparr>))
           | Blocks \<Rightarrow> (Blocks, j\<lparr>finalised := True\<rparr>)
           | Panics \<Rightarrow> (Panics, j\<lparr>finalised := True\<rparr>))"

text \<open>
  \<open>func (*Service) runJob(_, job *job) error\<close>: under the state lock, refuse when active,
  refuse when finalised, otherwise store active and send on the run channel.
\<close>

definition runJob :: "job \<Rightarrow> error option outcome \<times> job" where
  "runJob j =
     (if stateLock j then (Blocks, j)
      else if active j then (Returns (Some ErrJobRunning), j)
      else if finalised j then (Returns (Some ErrJobFinalised), j)
      else case chan_send (runCh j) of
             Returns c \<Rightarrow> (Returns None, j\<lparr>active := True, runCh := c\<rparr>)
           | Blocks \<Rightarrow>
               (Blocks, j\<lparr>stateLock := True, active := True, runCh := chan_park (runCh j)\<rparr>)
           | Panics \<Rightarrow> (Panics, j\<lparr>active := True\<rparr>))"

text \<open>
  The second critical section of \<open>CancelJob\<close> (lines 318 to 328): under the state lock,
  return at once when finalised, otherwise store finalised and send on the cancel channel.
\<close>

definition cancelSignal :: "job \<Rightarrow> error option outcome \<times> job" where
  "cancelSignal j =
     (if stateLock j then (Blocks, j)
      else if finalised j then (Returns None, j)
      else case chan_send (cancelCh j) of
             Returns c \<Rightarrow> (Returns None, j\<lparr>finalised := True, cancelCh := c\<rparr>)
           | Blocks \<Rightarrow>
               (Blocks, j\<lparr>stateLock := True, finalised := True,
                           cancelCh := chan_park (cancelCh j)\<rparr>)
           | Panics \<Rightarrow> (Panics, j\<lparr>finalised := True\<rparr>))"

section \<open>The runner goroutines\<close>

text \<open>
  What the caller-supplied \<open>runtimeFunc\<close> returns on one call: a time, the sentinel
  \<open>ErrNoMoreInstances\<close>, or another error. The callable is opaque, so it is modelled by the
  list of its successive results.
\<close>

datatype rt_result = At nat | NoMoreInstances | Failed

datatype branch = BCtx | BCancel | BRun | BTimer

text \<open>
  The control points of the goroutine started by \<open>ScheduleJob\<close> (periodic = False) and by
  \<open>SchedulePeriodicJob\<close> (periodic = True), one per atomic action of the source.
\<close>

datatype pc =
    AtRuntime
  | AtSelect
  | CtxDelete | CtxFinalise
  | CancelFinalise
  | RunCall | RunExec | RunFinalise | RunClear
  | TimerLoad | TimerDelete | TimerStore | TimerCall | TimerExec | TimerClear | TimerFinalise
  | StopDelete | StopFinalise
  | Exited

text \<open>
  A task is a job record together with the goroutine that owns it: the variables the closure
  captures (\<open>name\<close>, \<open>runtime\<close>, the behaviour of \<open>runtimeFunc\<close>, whether \<open>ctx\<close> is done),
  its control point, the counters of the metrics and log calls it makes, and bookkeeping of
  the calls in flight on the record: \<open>pend_run\<close> and \<open>pend_cancel\<close> count the callers that hold
  the pointer between the two critical sections of \<open>RunJob\<close> and \<open>CancelJob\<close>, \<open>run_ok\<close> and
  \<open>cancel_ok\<close> count the calls that returned nil, \<open>picks\<close> lists the branches its select
  statements took, and \<open>finalise_calls\<close> counts the calls of \<open>finaliseJob\<close> on the record.
\<close>

record task =
  jrec :: job
  jname :: string
  runtime :: nat
  script :: "rt_result list"
  ctx_done :: bool
  pc :: pc
  started_timer :: nat
  started_signal :: nat
  cancelled :: nat
  errors_logged :: nat
  finalise_calls :: nat
  picks :: "branch list"
  pend_run :: nat
  pend_cancel :: nat
  run_ok :: nat
  cancel_ok :: nat

definition new_task :: "string \<Rightarrow> bool \<Rightarrow> nat \<Rightarrow> rt_result list \<Rightarrow> task" where
  "new_task name p rt sc =
     \<lparr>jrec = new_job p, jname = name, runtime = rt, script = sc, ctx_done = False,
      pc = (if p then AtRuntime else AtSelect),
      started_timer = 0, started_signal = 0, cancelled = 0, errors_logged = 0,
      finalise_calls = 0, picks = [], pend_run = 0, pend_cancel = 0, run_ok = 0,
      cancel_ok = 0\<rparr>"

text \<open>
  The effect of one action of a goroutine outside its own task: none, \<open>delete(s.jobs, name)\<close>
  under the registry lock, or a panic, which ends the program.
\<close>

datatype effect = Pure | DeleteEntry | Panic

text \<open>
  A call of \<open>finaliseJob\<close> by the runner of the task. The runner waits while the state lock
  is held. A panic ends the program with the record as \<open>finaliseJob\<close> left it; otherwise the
  runner counts the cancellation where the code increments the metric and goes on to \<open>nxt\<close>.
\<close>

definition finalise_task :: "pc \<Rightarrow> nat \<Rightarrow> task \<Rightarrow> (effect \<times> task) option" where
  "finalise_task nxt metric t =
     (case finaliseJob (jrec t) of
        (Blocks, r) \<Rightarrow> None
      | (Panics, r) \<Rightarrow> Some (Panic, t\<lparr>jrec := r, finalise_calls := Suc (finalise_calls t)\<rparr>)
      | (Returns u, r) \<Rightarrow>
          Some (Pure, t\<lparr>jrec := r, finalise_calls := Suc (finalise_calls t),
                         cancelled := cancelled t + metric, pc := nxt\<rparr>))"

text \<open>
  The select statement of both runners (lines 105 to 144 and 209 to 240): a branch can be
  taken when its channel is ready; the timer channel is ready once the clock has reached
  \<open>runtime\<close>. Receiving from the run or cancel channel resumes a parked sender, which then
  unlocks and returns nil.
\<close>

definition pick :: "nat \<Rightarrow> branch \<Rightarrow> task \<Rightarrow> (effect \<times> task) option" where
  "pick clk b t =
     (if pc t \<noteq> AtSelect then None
      else case b of
        BCtx \<Rightarrow>
          (if ctx_done t then Some (Pure, t\<lparr>pc := CtxDelete, picks := picks t @ [BCtx]\<rparr>)
           else None)
      | BCancel \<Rightarrow>
          (if \<not> chan_ready (cancelCh (jrec t)) then None
           else if 0 < buf (cancelCh (jrec t)) \<and> 0 < sendq (cancelCh (jrec t))
           then Some (Pure,
             t\<lparr>jrec := (jrec t)\<lparr>stateLock := False, cancelCh := chan_recv (cancelCh (jrec t))\<rparr>,
               cancel_ok := Suc (cancel_ok t), pc := CancelFinalise,
               picks := picks t @ [BCancel]\<rparr>)
           else Some (Pure,
             t\<lparr>jrec := (jrec t)\<lparr>cancelCh := chan_recv (cancelCh (jrec t))\<rparr>,
               pc := CancelFinalise, picks := picks t @ [BCancel]\<rparr>))
      | BRun \<Rightarrow>
          (if \<not> chan_ready (runCh (jrec t)) then None
           else if 0 < buf (runCh (jrec t)) \<and> 0 < sendq (runCh (jrec t))
           then Some (Pure,
             t\<lparr>jrec := (jrec t)\<lparr>stateLock := False, runCh := chan_recv (runCh (jrec t))\<rparr>,
               run_ok := Suc (run_ok t), pc := RunCall, picks := picks t @ [BRun]\<rparr>)
           else Some (Pure,
             t\<lparr>jrec := (jrec t)\<lparr>runCh := chan_recv (runCh (jrec t))\<rparr>,
               pc := RunCall, picks := picks t @ [BRun]\<rparr>))
      | BTimer \<Rightarrow>
          (if runtime t \<le> clk then Some (Pure, t\<lparr>pc := TimerLoad, picks := picks t @ [BTimer]\<rparr>)
           else None))"

text \<open>
  Every other action of a runner. \<open>RunExec\<close> and \<open>TimerExec\<close> are the control points at
  which \<open>jobFunc\<close> is executing; the step that leaves them is its return.
\<close>

definition advance :: "task \<Rightarrow> (effect \<times> task) option" where
  "advance t =
     (case pc t of
        AtRuntime \<Rightarrow>
          (case script t of
             [] \<Rightarrow> None
           | NoMoreInstances # r \<Rightarrow> Some (Pure, t\<lparr>script := r, pc := StopDelete\<rparr>)
           | Failed # r \<Rightarrow>
               Some (Pure, t\<lparr>script := r, errors_logged := Suc (errors_logged t),
                              pc := StopDelete\<rparr>)
           | At w # r \<Rightarrow> Some (Pure, t\<lparr>script := r, runtime := w, pc := AtSelect\<rparr>))
      | AtSelect \<Rightarrow> None
      | CtxDelete \<Rightarrow> Some (DeleteEntry, t\<lparr>pc := CtxFinalise\<rparr>)
      | CtxFinalise \<Rightarrow> finalise_task Exited 1 t
      | CancelFinalise \<Rightarrow> finalise_task Exited 1 t
      | RunCall \<Rightarrow> Some (Pure, t\<lparr>started_signal := Suc (started_signal t), pc := RunExec\<rparr>)
      | RunExec \<Rightarrow>
          (if periodic (jrec t) then Some (Pure, t\<lparr>pc := RunClear\<rparr>)
           else Some (Pure, t\<lparr>pc := RunFinalise\<rparr>))
      | RunFinalise \<Rightarrow> finalise_task RunClear 0 t
      | RunClear \<Rightarrow>
          (if periodic (jrec t)
           then Some (Pure, t\<lparr>jrec := (jrec t)\<lparr>active := False\<rparr>, pc := AtRuntime\<rparr>)
           else Some (Pure, t\<lparr>jrec := (jrec t)\<lparr>active := False\<rparr>, pc := Exited\<rparr>))
      | TimerLoad \<Rightarrow>
          (if active (jrec t)
           then (if periodic (jrec t) then Some (Pure, t\<lparr>pc := AtRuntime\<rparr>)
                 else Some (Pure, t\<lparr>pc := Exited\<rparr>))
           else (if periodic (jrec t) then Some (Pure, t\<lparr>pc := TimerStore\<rparr>)
                 else Some (Pure, t\<lparr>pc := TimerDelete\<rparr>)))
      | TimerDelete \<Rightarrow> Some (DeleteEntry, t\<lparr>pc := TimerStore\<rparr>)
      | TimerStore \<Rightarrow> Some (Pure, t\<lparr>jrec := (jrec t)\<lparr>active := True\<rparr>, pc := TimerCall\<rparr>)
      | TimerCall \<Rightarrow> Some (Pure, t\<lparr>started_timer := Suc (started_timer t), pc := TimerExec\<rparr>)
      | TimerExec \<Rightarrow> Some (Pure, t\<lparr>pc := TimerClear\<rparr>)
      | TimerClear \<Rightarrow>
          (if periodic (jrec t)
           then Some (Pure, t\<lparr>jrec := (jrec t)\<lparr>active := False\<rparr>, pc := AtRuntime\<rparr>)
           else Some (Pure, t\<lparr>jrec := (jrec t)\<lparr>active := False\<rparr>, pc := TimerFinalise\<rparr>))
      | TimerFinalise \<Rightarrow> finalise_task Exited 0 t
      | StopDelete \<Rightarrow> Some (DeleteEntry, t\<lparr>pc := StopFinalise\<rparr>)
      | StopFinalise \<Rightarrow> finalise_task Exited 1 t
      | Exited \<Rightarrow> None)"

text \<open>The second critical sections of \<open>RunJob\<close> and \<open>CancelJob\<close>, with the bookkeeping.\<close>

definition run_signal :: "task \<Rightarrow> error option outcome \<times> effect \<times> task" where
  "run_signal t =
     (case runJob (jrec t) of
        (Returns None, r) \<Rightarrow>
          (Returns None, Pure,
           t\<lparr>jrec := r, pend_run := pend_run t - 1, run_ok := Suc (run_ok t)\<rparr>)
      | (Returns (Some e), r) \<Rightarrow>
          (Returns (Some e), Pure, t\<lparr>jrec := r, pend_run := pend_run t - 1\<rparr>)
      | (Blocks, r) \<Rightarrow>
          (if stateLock (jrec t) then (Blocks, Pure, t)
           else (Blocks, Pure, t\<lparr>jrec := r, pend_run := pend_run t - 1\<rparr>))
      | (Panics, r) \<Rightarrow> (Panics, Panic, t\<lparr>jrec := r, pend_run := pend_run t - 1\<rparr>))"

definition cancel_signal :: "task \<Rightarrow> error option outcome \<times> effect \<times> task" where
  "cancel_signal t =
     (case cancelSignal (jrec t) of
        (Returns None, r) \<Rightarrow>
          (Returns None, Pure,
           t\<lparr>jrec := r, pend_cancel := pend_cancel t - 1, cancel_ok := Suc (cancel_ok t)\<rparr>)
      | (Returns (Some e), r) \<Rightarrow>
          (Returns (Some e), Pure, t\<lparr>jrec := r, pend_cancel := pend_cancel t - 1\<rparr>)
      | (Blocks, r) \<Rightarrow>
          (if stateLock (jrec t) then (Blocks, Pure, t)
           else (Blocks, Pure, t\<lparr>jrec := r, pend_cancel := pend_cancel t - 1\<rparr>))
      | (Panics, r) \<Rightarrow> (Panics, Panic, t\<lparr>jrec := r, pend_cancel := pend_cancel t - 1\<rparr>))"

section \<open>The service\<close>

text \<open>
  \<open>type Service struct\<close>: the map from names to job records. Records are shared between the
  map, their runner and the calls in flight, so the map holds addresses and \<open>tasks\<close> is the
  store; addresses below \<open>nextid\<close> are allocated. \<open>clock\<close> is the current time and \<open>crashed\<close>
  records a panic.
\<close>

record service =
  jobs :: "string \<rightharpoonup> nat"
  tasks :: "nat \<Rightarrow> task"
  nextid :: nat
  clock :: nat
  crashed :: bool

definition New :: service where
  "New = \<lparr>jobs = Map.empty, tasks = (\<lambda>_. new_task [] False 0 []), nextid = 0, clock = 0,
          crashed = False\<rparr>"

definition spawn :: "service \<Rightarrow> string \<Rightarrow> bool \<Rightarrow> nat \<Rightarrow> rt_result list \<Rightarrow> service" where
  "spawn s name p rt sc =
     s\<lparr>jobs := (jobs s)(name \<mapsto> nextid s),
       tasks := (tasks s)(nextid s := new_task name p rt sc),
       nextid := Suc (nextid s)\<rparr>"

text \<open>
  \<open>ScheduleJob\<close> and \<open>SchedulePeriodicJob\<close>. A callable is \<open>None\<close> when the Go value is nil.
  The runner is started at its first control point and moves when the scheduler lets it.
\<close>

definition ScheduleJob ::
  "service \<Rightarrow> string \<Rightarrow> nat \<Rightarrow> unit option \<Rightarrow> error option \<times> service" where
  "ScheduleJob s name rt jobFunc =
     (if name = [] then (Some ErrNoJobName, s)
      else if jobFunc = None then (Some ErrNoJobFunc, s)
      else if jobs s name \<noteq> None then (Some ErrJobAlreadyExists, s)
      else (None, spawn s name False rt []))"

definition SchedulePeriodicJob ::
  "service \<Rightarrow> string \<Rightarrow> rt_result list option \<Rightarrow> unit option \<Rightarrow> error option \<times> service" where
  "SchedulePeriodicJob s name runtimeFunc jobFunc =
     (if name = [] then (Some ErrNoJobName, s)
      else case runtimeFunc of
        None \<Rightarrow> (Some ErrNoRuntimeFunc, s)
      | Some sc \<Rightarrow>
          (if jobFunc = None then (Some ErrNoJobFunc, s)
           else if jobs s name \<noteq> None then (Some ErrJobAlreadyExists, s)
           else (None, spawn s name True 0 sc)))"

definition JobExists :: "service \<Rightarrow> string \<Rightarrow> bool" where
  "JobExists s name = (jobs s name \<noteq> None)"

definition ListJobs :: "service \<Rightarrow> string set" where
  "ListJobs s = dom (jobs s)"

definition on_task :: "nat \<Rightarrow> effect \<times> task \<Rightarrow> service \<Rightarrow> service" where
  "on_task j r s =
     (case r of
        (Pure, t) \<Rightarrow> s\<lparr>tasks := (tasks s)(j := t)\<rparr>
      | (DeleteEntry, t) \<Rightarrow> s\<lparr>jobs := (jobs s)(jname t := None), tasks := (tasks s)(j := t)\<rparr>
      | (Panic, t) \<Rightarrow> s\<lparr>tasks := (tasks s)(j := t), crashed := True\<rparr>)"

text \<open>
  The first critical section of \<open>RunJob\<close> and \<open>RunJobIfExists\<close> (lines 250 to 261): look the
  name up and delete the entry of a job that is not periodic.
\<close>

definition RunJob_lookup :: "service \<Rightarrow> string \<Rightarrow> (error + nat) \<times> service" where
  "RunJob_lookup s name =
     (case jobs s name of
        None \<Rightarrow> (Inl ErrNoSuchJob, s)
      | Some j \<Rightarrow>
          (Inr j,
           (if \<not> periodic (jrec (tasks s j)) then s\<lparr>jobs := (jobs s)(name := None)\<rparr> else s)
           \<lparr>tasks := (tasks s)(j := (tasks s j)\<lparr>pend_run := Suc (pend_run (tasks s j))\<rparr>)\<rparr>))"

definition runJob_at :: "service \<Rightarrow> nat \<Rightarrow> error option outcome \<times> service" where
  "runJob_at s j = (case run_signal (tasks s j) of (res, r) \<Rightarrow> (res, on_task j r s))"

definition RunJob :: "service \<Rightarrow> string \<Rightarrow> error option outcome \<times> service" where
  "RunJob s name =
     (case RunJob_lookup s name of
        (Inl e, s') \<Rightarrow> (Returns (Some e), s')
      | (Inr j, s') \<Rightarrow> runJob_at s' j)"

definition RunJobIfExists :: "service \<Rightarrow> string \<Rightarrow> unit outcome \<times> service" where
  "RunJobIfExists s name =
     (case RunJob s name of
        (Returns _, s') \<Rightarrow> (Returns (), s')
      | (Blocks, s') \<Rightarrow> (Blocks, s')
      | (Panics, s') \<Rightarrow> (Panics, s'))"

text \<open>The first critical section of \<open>CancelJob\<close> (lines 309 to 316).\<close>

definition CancelJob_lookup :: "service \<Rightarrow> string \<Rightarrow> (error + nat) \<times> service" where
  "CancelJob_lookup s name =
     (case jobs s name of
        None \<Rightarrow> (Inl ErrNoSuchJob, s)
      | Some j \<Rightarrow>
          (Inr j,
           s\<lparr>jobs := (jobs s)(name := None),
             tasks := (tasks s)(j := (tasks s j)\<lparr>pend_cancel := Suc (pend_cancel (tasks s j))\<rparr>)\<rparr>))"

definition cancelJob_at :: "service \<Rightarrow> nat \<Rightarrow> error option outcome \<times> service" where
  "cancelJob_at s j = (case cancel_signal (tasks s j) of (res, r) \<Rightarrow> (res, on_task j r s))"

definition CancelJob :: "service \<Rightarrow> string \<Rightarrow> error option outcome \<times> service" where
  "CancelJob s name =
     (case CancelJob_lookup s name of
        (Inl e, s') \<Rightarrow> (Returns (Some e), s')
      | (Inr j, s') \<Rightarrow> cancelJob_at s' j)"

definition CancelJobIfExists :: "service \<Rightarrow> string \<Rightarrow> unit outcome \<times> service" where
  "CancelJobIfExists s name =
     (case CancelJob s name of
        (Returns _, s') \<Rightarrow> (Returns (), s')
      | (Blocks, s') \<Rightarrow> (Blocks, s')
      | (Panics, s') \<Rightarrow> (Panics, s'))"

section \<open>Interleavings\<close>

text \<open>
  One event is one atomic action of some goroutine or of the environment: the clock advances,
  a parent context is cancelled, a caller runs a scheduling call or one critical section of
  \<open>RunJob\<close> or \<open>CancelJob\<close>, a runner takes a branch of its select or performs its next
  action. \<open>step\<close> is \<open>None\<close> when the action cannot happen in the state: the goroutine is
  blocked, does not exist, or the program has panicked.
\<close>

datatype event =
    Tick
  | CtxDone nat
  | CallScheduleJob string nat "unit option"
  | CallSchedulePeriodicJob string "rt_result list option" "unit option"
  | RunJobEnter string
  | RunJobSignal nat
  | CancelJobEnter string
  | CancelJobSignal nat
  | Pick nat branch
  | Step nat

definition local_step :: "nat \<Rightarrow> (effect \<times> task) option \<Rightarrow> service \<Rightarrow> service option" where
  "local_step j r s =
     (if nextid s \<le> j then None
      else case r of None \<Rightarrow> None | Some x \<Rightarrow> Some (on_task j x s))"

definition step :: "event \<Rightarrow> service \<Rightarrow> service option" where
  "step e s =
     (if crashed s then None
      else case e of
        Tick \<Rightarrow> Some (s\<lparr>clock := Suc (clock s)\<rparr>)
      | CtxDone j \<Rightarrow> local_step j (Some (Pure, (tasks s j)\<lparr>ctx_done := True\<rparr>)) s
      | CallScheduleJob name rt f \<Rightarrow> Some (snd (ScheduleJob s name rt f))
      | CallSchedulePeriodicJob name rf f \<Rightarrow> Some (snd (SchedulePeriodicJob s name rf f))
      | RunJobEnter name \<Rightarrow> Some (snd (RunJob_lookup s name))
      | RunJobSignal j \<Rightarrow>
          (if pend_run (tasks s j) = 0 \<or> stateLock (jrec (tasks s j)) then None
           else local_step j (Some (snd (run_signal (tasks s j)))) s)
      | CancelJobEnter name \<Rightarrow> Some (snd (CancelJob_lookup s name))
      | CancelJobSignal j \<Rightarrow>
          (if pend_cancel (tasks s j) = 0 \<or> stateLock (jrec (tasks s j)) then None
           else local_step j (Some (snd (cancel_signal (tasks s j)))) s)
      | Pick j b \<Rightarrow> local_step j (pick (clock s) b (tasks s j)) s
      | Step j \<Rightarrow> local_step j (advance (tasks s j)) s)"

fun run :: "event list \<Rightarrow> service \<Rightarrow> service option" where
  "run [] s = Some s"
| "run (e # es) s = (case step e s of None \<Rightarrow> None | Some s' \<Rightarrow> run es s')"

section \<open>The chain id request\<close>

unbundle bit_operations_syntax

text \<open>
  \<open>chainID\<close> calls three functions of the Go standard library on the text of the response.
  \<open>strings.TrimPrefix\<close> and \<open>strconv.ParseUint\<close> are modelled after their Go source, for the
  arguments of the call: base 16 and bit size 64. A Go string is a sequence of bytes, here a
  list of \<open>char\<close>. \<open>ParseUint\<close> rejects the empty string, then reads byte by byte: a decimal
  digit, or a letter whose lower case \<open>c | ('x' - 'X')\<close> lies between \<open>a\<close> and \<open>z\<close>, gives the
  digit value; a value of 16 or more is a syntax error; the accumulator is a \<open>uint64\<close>, and the
  checks against \<open>cutoff\<close> and \<open>maxVal\<close> before and after the multiplication give the range
  error.
\<close>

datatype num_error = ErrSyntax | ErrRange

definition TrimPrefix :: "string \<Rightarrow> string \<Rightarrow> string" where
  "TrimPrefix s prefix =
     (if take (length prefix) s = prefix then drop (length prefix) s else s)"

definition lower :: "nat \<Rightarrow> nat" where
  "lower c = c OR 32"

definition digit :: "char \<Rightarrow> nat option" where
  "digit ch =
     (let c = (of_char ch :: nat) in
      if 48 \<le> c \<and> c \<le> 57 then Some (c - 48)
      else if 97 \<le> lower c \<and> lower c \<le> 122 then Some (lower c - 97 + 10)
      else None)"

definition cutoff :: "64 word" where
  "cutoff = 0xFFFFFFFFFFFFFFFF div 16 + 1"

definition maxVal :: "64 word" where
  "maxVal = push_bit 64 1 - 1"

fun parse_loop :: "64 word \<Rightarrow> string \<Rightarrow> num_error + 64 word" where
  "parse_loop n [] = Inr n"
| "parse_loop n (c # cs) =
     (case digit c of
        None \<Rightarrow> Inl ErrSyntax
      | Some d \<Rightarrow>
          if 16 \<le> d then Inl ErrSyntax
          else if cutoff \<le> n then Inl ErrRange
          else if n * 16 + of_nat d < n * 16 \<or> maxVal < n * 16 + of_nat d then Inl ErrRange
          else parse_loop (n * 16 + of_nat d) cs)"

definition ParseUint :: "string \<Rightarrow> num_error + 64 word" where
  "ParseUint s = (if s = [] then Inl ErrSyntax else parse_loop 0 s)"

text \<open>
  What the text of the response denotes: \<open>hex_value\<close> reads a string of hexadecimal digits of
  either case as a natural number, most significant digit first, and \<open>valid_hex64\<close> holds of
  the non-empty strings of such digits whose value fits 64 bits.
\<close>

definition hex_digit_value :: "char \<Rightarrow> nat option" where
  "hex_digit_value ch =
     (let c = (of_char ch :: nat) in
      if 48 \<le> c \<and> c \<le> 57 then Some (c - 48)
      else if 97 \<le> c \<and> c \<le> 102 then Some (c - 87)
      else if 65 \<le> c \<and> c \<le> 70 then Some (c - 55)
      else None)"

fun hex_value :: "nat \<Rightarrow> string \<Rightarrow> nat option" where
  "hex_value a [] = Some a"
| "hex_value a (c # cs) =
     (case hex_digit_value c of None \<Rightarrow> None | Some d \<Rightarrow> hex_value (16 * a + d) cs)"

definition valid_hex64 :: "string \<Rightarrow> bool" where
  "valid_hex64 s =
     (s \<noteq> [] \<and> (case hex_value 0 s of None \<Rightarrow> False | Some m \<Rightarrow> m < 2 ^ 64))"

text \<open>
  \<open>func (s *Service) chainID(ctx) (uint64, error)\<close>. The request goes through \<open>s.post\<close>, a
  field of the service, and the body is read by \<open>json.NewDecoder(...).Decode\<close>; both are
  parameters of the model. \<open>post\<close> is the result of \<open>s.post\<close>: an error, or a reader that may be
  nil, the reader given by the bytes it yields. \<open>decode\<close> maps these bytes to the \<open>Result\<close>
  field of the decoded response, or to \<open>None\<close> when decoding fails. \<open>url.Parse("")\<close> is called
  on a constant and returns the empty reference with a nil error; \<open>empty_reference\<close> is that
  result, and the model keeps the branch on it.
\<close>

datatype post_result = PostError | PostBody "string option"

datatype chain_error = InvalidEndpoint | RequestFailed | NoResponse | DecodeFailed
  | ParseFailed num_error

definition empty_reference :: "string option" where
  "empty_reference = Some []"

definition chainID :: "post_result \<Rightarrow> (string \<Rightarrow> string option) \<Rightarrow> 64 word \<times> chain_error option" where
  "chainID post decode =
     (case empty_reference of
        None \<Rightarrow> (0, Some InvalidEndpoint)
      | Some reference \<Rightarrow>
     (case post of
        PostError \<Rightarrow> (0, Some RequestFailed)
      | PostBody None \<Rightarrow> (0, Some NoResponse)
      | PostBody (Some body) \<Rightarrow>
          (case decode body of
             None \<Rightarrow> (0, Some DecodeFailed)
           | Some result \<Rightarrow>
               (case ParseUint (TrimPrefix result ''0x'') of
                  Inl e \<Rightarrow> (0, Some (ParseFailed e))
                | Inr v \<Rightarrow> (v, None)))))"

definition decode_as :: "string \<Rightarrow> string \<Rightarrow> string option" where
  "decode_as r body = (if body = ''junk'' then None else Some r)"

section \<open>Invariants and example runs: definitions\<close>

text \<open>
  The properties of a task that every action preserves. \<open>chans_ok\<close>: a record is finalised
  at most once, its channels are closed exactly when it has been, a notification on the cancel
  channel implies finalised, and the state lock is held exactly while a sender is parked on the
  full run channel. \<open>oneoff_ok\<close>: the runner of a job that is not periodic takes at most
  one branch of its select, and the counters of the two kinds of start follow from its control
  point. \<open>active_src\<close>: where a set active flag comes from. \<open>timer_due\<close>: the timer branch
  is only taken once the clock has reached the scheduled time. \<open>registrable\<close>: what holds of
  a record that the registry still points to. \<open>task_step\<close>: what one event can do to one
  task. \<open>shielded\<close>: a one-off task on which the timer path can no longer start the job
  function. \<open>cancel_src\<close>: finalised is set only by a \<open>CancelJob\<close> that has returned nil or by
  \<open>finaliseJob\<close>; after such a \<open>CancelJob\<close> the notification is in the cancel channel until
  the runner takes it; and a one-off record on which \<open>CancelJob\<close> has found its entry is never
  signalled on the run channel. \<open>timer_only\<close>: the states of a periodic task that is driven by
  its timer alone, with the results \<open>ts\<close> of the runtime callable still to come; \<open>quiet\<close>: the
  events that leave such a task to its timer; \<open>remaining\<close>: the order in which such a task
  approaches its end. The remaining definitions name the states and runs used as examples.
\<close>

definition chans_ok :: "task \<Rightarrow> bool" where
  "chans_ok t =
     (finalise_calls t \<le> Suc 0 \<and>
      is_closed (cancelCh (jrec t)) = (finalise_calls t = Suc 0) \<and>
      is_closed (runCh (jrec t)) = (finalise_calls t = Suc 0) \<and>
      (finalise_calls t = Suc 0 \<longrightarrow>
         finalised (jrec t) \<and> (pc t = Exited \<or> pc t = RunClear \<and> \<not> periodic (jrec t))) \<and>
      buf (cancelCh (jrec t)) \<le> Suc 0 \<and> buf (runCh (jrec t)) \<le> Suc 0 \<and>
      (0 < buf (cancelCh (jrec t)) \<longrightarrow> finalised (jrec t)) \<and>
      sendq (cancelCh (jrec t)) = 0 \<and>
      (stateLock (jrec t) \<longrightarrow>
         \<not> finalised (jrec t) \<and> buf (runCh (jrec t)) = Suc 0 \<and> sendq (runCh (jrec t)) = Suc 0) \<and>
      (\<not> stateLock (jrec t) \<longrightarrow> sendq (runCh (jrec t)) = 0) \<and>
      (pc t = RunFinalise \<longrightarrow> \<not> periodic (jrec t)))"

definition at_branch :: "task \<Rightarrow> branch \<Rightarrow> nat \<Rightarrow> nat \<Rightarrow> bool" where
  "at_branch t b st ss = (picks t = [b] \<and> started_timer t = st \<and> started_signal t = ss)"

definition oneoff_ok :: "task \<Rightarrow> bool" where
  "oneoff_ok t =
     (\<not> periodic (jrec t) \<longrightarrow>
        (case pc t of
           AtSelect \<Rightarrow> picks t = [] \<and> started_timer t = 0 \<and> started_signal t = 0
         | CtxDelete \<Rightarrow> at_branch t BCtx 0 0
         | CtxFinalise \<Rightarrow> at_branch t BCtx 0 0
         | CancelFinalise \<Rightarrow> at_branch t BCancel 0 0
         | RunCall \<Rightarrow> at_branch t BRun 0 0
         | RunExec \<Rightarrow> at_branch t BRun 0 (Suc 0)
         | RunFinalise \<Rightarrow> at_branch t BRun 0 (Suc 0)
         | RunClear \<Rightarrow> at_branch t BRun 0 (Suc 0)
         | TimerLoad \<Rightarrow> at_branch t BTimer 0 0
         | TimerDelete \<Rightarrow> at_branch t BTimer 0 0
         | TimerStore \<Rightarrow> at_branch t BTimer 0 0
         | TimerCall \<Rightarrow> at_branch t BTimer 0 0
         | TimerExec \<Rightarrow> at_branch t BTimer (Suc 0) 0
         | TimerClear \<Rightarrow> at_branch t BTimer (Suc 0) 0
         | TimerFinalise \<Rightarrow> at_branch t BTimer (Suc 0) 0
         | Exited \<Rightarrow> at_branch t BCtx 0 0 \<or> at_branch t BCancel 0 0 \<or>
                     at_branch t BRun 0 (Suc 0) \<or> at_branch t BTimer 0 0 \<or>
                     at_branch t BTimer (Suc 0) 0
         | AtRuntime \<Rightarrow> False
         | StopDelete \<Rightarrow> False
         | StopFinalise \<Rightarrow> False) \<and>
        (pc t = AtSelect \<longrightarrow> 0 < buf (runCh (jrec t)) \<longrightarrow> active (jrec t)) \<and>
        (pc t = RunCall \<or> pc t = RunExec \<or> pc t = TimerCall \<or> pc t = TimerExec \<longrightarrow>
           active (jrec t)))"

definition active_src :: "task \<Rightarrow> bool" where
  "active_src t =
     (active (jrec t) \<longrightarrow>
        0 < run_ok t \<or> stateLock (jrec t) \<or> pc t = TimerCall \<or> pc t = TimerExec \<or>
        pc t = TimerClear)"

definition timer_due :: "nat \<Rightarrow> task \<Rightarrow> bool" where
  "timer_due c t = (\<not> periodic (jrec t) \<longrightarrow> BTimer \<in> set (picks t) \<longrightarrow> runtime t \<le> c)"

definition registrable :: "task \<Rightarrow> bool" where
  "registrable t =
     (pend_cancel t = 0 \<and> cancel_ok t = 0 \<and> buf (cancelCh (jrec t)) = 0 \<and>
      \<not> finalised (jrec t) \<and>
      pc t \<noteq> CtxFinalise \<and> pc t \<noteq> CancelFinalise \<and> pc t \<noteq> RunFinalise \<and>
      pc t \<noteq> TimerFinalise \<and> pc t \<noteq> StopFinalise \<and>
      (\<not> periodic (jrec t) \<longrightarrow>
         pend_run t = 0 \<and> run_ok t = 0 \<and> \<not> active (jrec t) \<and> \<not> stateLock (jrec t) \<and>
         buf (runCh (jrec t)) = 0 \<and>
         (pc t = AtSelect \<or> pc t = CtxDelete \<or> pc t = TimerLoad \<or> pc t = TimerDelete)))"

definition task_ok :: "nat \<Rightarrow> task \<Rightarrow> bool" where
  "task_ok c t = (chans_ok t \<and> oneoff_ok t \<and> active_src t \<and> timer_due c t)"

definition sys_ok :: "service \<Rightarrow> bool" where
  "sys_ok s =
     (\<not> crashed s \<and> (\<forall>j. task_ok (clock s) (tasks s j)) \<and>
      (\<forall>n j. jobs s n = Some j \<longrightarrow>
         j < nextid s \<and> jname (tasks s j) = n \<and> registrable (tasks s j)))"

definition task_step :: "nat \<Rightarrow> task \<Rightarrow> task \<Rightarrow> bool" where
  "task_step c t t' =
     (t' = t \<or> (\<exists>b e. pick c b t = Some (e, t')) \<or> (\<exists>e. advance t = Some (e, t')) \<or>
      (0 < pend_run t \<and> \<not> stateLock (jrec t) \<and> t' = snd (snd (run_signal t))) \<or>
      (0 < pend_cancel t \<and> \<not> stateLock (jrec t) \<and> t' = snd (snd (cancel_signal t))) \<or>
      t' = t\<lparr>ctx_done := True\<rparr> \<or> t' = t\<lparr>pend_run := Suc (pend_run t)\<rparr> \<or>
      t' = t\<lparr>pend_cancel := Suc (pend_cancel t)\<rparr>)"

definition shielded :: "task \<Rightarrow> bool" where
  "shielded t =
     (\<not> periodic (jrec t) \<and> started_timer t = 0 \<and>
      pc t \<noteq> TimerDelete \<and> pc t \<noteq> TimerStore \<and> pc t \<noteq> TimerCall \<and> pc t \<noteq> TimerExec \<and>
      pc t \<noteq> TimerClear \<and> pc t \<noteq> TimerFinalise \<and> pc t \<noteq> AtRuntime \<and>
      (pc t = AtSelect \<or> pc t = TimerLoad \<longrightarrow> active (jrec t)))"

definition cancel_src :: "task \<Rightarrow> bool" where
  "cancel_src t =
     ((finalised (jrec t) \<longrightarrow> 0 < cancel_ok t \<or> finalise_calls t = Suc 0) \<and>
      (0 < cancel_ok t \<longrightarrow>
         finalised (jrec t) \<and>
         (0 < buf (cancelCh (jrec t)) \<or> BCancel \<in> set (picks t) \<or> finalise_calls t = Suc 0)) \<and>
      (\<not> periodic (jrec t) \<longrightarrow> 0 < pend_cancel t \<or> 0 < cancel_ok t \<longrightarrow>
         pend_run t = 0 \<and> run_ok t = 0 \<and> buf (runCh (jrec t)) = 0 \<and>
         \<not> stateLock (jrec t) \<and> BRun \<notin> set (picks t)))"

definition cancel_sys :: "service \<Rightarrow> bool" where
  "cancel_sys s = (\<forall>j. cancel_src (tasks s j))"

definition registered_A :: service where
  "registered_A = snd (ScheduleJob New ''A'' 5 (Some ()))"

definition periodic_B :: service where
  "periodic_B = snd (SchedulePeriodicJob New ''B'' (Some [At 0, At 1, NoMoreInstances]) (Some ()))"

definition trace_executing :: "event list" where
  "trace_executing = [CallSchedulePeriodicJob ''B'' (Some [At 0, At 1, NoMoreInstances]) (Some ()),
                      Step 0, Pick 0 BTimer, Step 0, Step 0, Step 0]"

definition trace_retired :: "event list" where
  "trace_retired = [CallSchedulePeriodicJob ''B'' (Some [At 0, At 1, NoMoreInstances]) (Some ()),
                    RunJobEnter ''B'', CancelJobEnter ''B'', CancelJobSignal 0]"








definition queued :: "task \<Rightarrow> nat \<times> nat" where
  "queued t = (buf (runCh (jrec t)) + sendq (runCh (jrec t)),
               buf (cancelCh (jrec t)) + sendq (cancelCh (jrec t)))"

definition trace_cancelled :: "event list" where
  "trace_cancelled = [CallScheduleJob ''A'' 5 (Some ()), CancelJobEnter ''A'', CancelJobSignal 0,
                      Pick 0 BCancel, Step 0]"

definition finalised_job :: job where
  "finalised_job =
     (new_job False)\<lparr>finalised := True, cancelCh := make_chan\<lparr>is_closed := True\<rparr>,
                      runCh := make_chan\<lparr>is_closed := True\<rparr>\<rparr>"


definition trace_timer_exec :: "event list" where
  "trace_timer_exec = [CallScheduleJob ''A'' 0 (Some ()), Pick 0 BTimer, Step 0, Step 0, Step 0,
                       Step 0]"

definition trace_cancel_then_timer :: "event list" where
  "trace_cancel_then_timer =
     [CallScheduleJob ''A'' 1 (Some ()), CancelJobEnter ''A'', CancelJobSignal 0, Tick,
      Pick 0 BTimer, Step 0, Step 0, Step 0, Step 0]"

definition trace_cancel_waiting :: "event list" where
  "trace_cancel_waiting = [CallScheduleJob ''A'' 1 (Some ()), CancelJobEnter ''A'', CancelJobSignal 0]"

definition trace_skip :: "event list" where
  "trace_skip = [CallScheduleJob ''A'' 1 (Some ()), RunJobEnter ''A'', RunJobSignal 0, Tick,
                 Pick 0 BTimer, Step 0]"

definition iterating :: "task \<Rightarrow> nat list \<Rightarrow> rt_result \<Rightarrow> rt_result list \<Rightarrow> nat \<Rightarrow> bool \<Rightarrow> bool" where
  "iterating t ts x rest k a =
     (script t = map At (drop k ts) @ x # rest \<and> k \<le> length ts \<and> active (jrec t) = a \<and>
      finalise_calls t = 0 \<and> \<not> is_closed (cancelCh (jrec t)) \<and> \<not> is_closed (runCh (jrec t)) \<and>
      errors_logged t = 0 \<and> cancelled t = 0)"

definition stopping :: "task \<Rightarrow> nat list \<Rightarrow> rt_result \<Rightarrow> bool" where
  "stopping t ts x =
     (started_timer t = length ts \<and> finalise_calls t = 0 \<and> \<not> is_closed (cancelCh (jrec t)) \<and>
      \<not> is_closed (runCh (jrec t)) \<and> errors_logged t = (if x = Failed then 1 else 0) \<and>
      cancelled t = 0)"

definition stopped :: "task \<Rightarrow> nat list \<Rightarrow> rt_result \<Rightarrow> bool" where
  "stopped t ts x =
     (started_timer t = length ts \<and> finalise_calls t = 1 \<and> finalised (jrec t) \<and>
      is_closed (cancelCh (jrec t)) \<and> is_closed (runCh (jrec t)) \<and>
      errors_logged t = (if x = Failed then 1 else 0) \<and> cancelled t = 1)"

definition timer_only :: "nat list \<Rightarrow> rt_result \<Rightarrow> rt_result list \<Rightarrow> task \<Rightarrow> bool" where
  "timer_only ts x rest t =
     (periodic (jrec t) \<and> \<not> stateLock (jrec t) \<and> started_signal t = 0 \<and>
      \<not> ctx_done t \<and> pend_run t = 0 \<and> pend_cancel t = 0 \<and>
      buf (runCh (jrec t)) = 0 \<and> buf (cancelCh (jrec t)) = 0 \<and>
      (x = NoMoreInstances \<or> x = Failed) \<and>
      (case pc t of
         AtRuntime \<Rightarrow> iterating t ts x rest (started_timer t) False
       | AtSelect \<Rightarrow> iterating t ts x rest (Suc (started_timer t)) False
       | TimerLoad \<Rightarrow> iterating t ts x rest (Suc (started_timer t)) False
       | TimerStore \<Rightarrow> iterating t ts x rest (Suc (started_timer t)) False
       | TimerCall \<Rightarrow> iterating t ts x rest (Suc (started_timer t)) True
       | TimerExec \<Rightarrow> iterating t ts x rest (started_timer t) True
       | TimerClear \<Rightarrow> iterating t ts x rest (started_timer t) True
       | StopDelete \<Rightarrow> stopping t ts x
       | StopFinalise \<Rightarrow> stopping t ts x
       | Exited \<Rightarrow> stopped t ts x
       | CtxDelete \<Rightarrow> False
       | CtxFinalise \<Rightarrow> False
       | CancelFinalise \<Rightarrow> False
       | RunCall \<Rightarrow> False
       | RunExec \<Rightarrow> False
       | RunFinalise \<Rightarrow> False
       | RunClear \<Rightarrow> False
       | TimerDelete \<Rightarrow> False
       | TimerFinalise \<Rightarrow> False))"

definition timer_events :: "nat \<Rightarrow> event set" where
  "timer_events j = {Tick, Step j, Pick j BTimer}"

definition quiet :: "string \<Rightarrow> nat \<Rightarrow> event \<Rightarrow> bool" where
  "quiet name j e = (e \<noteq> CtxDone j \<and> e \<noteq> RunJobEnter name \<and> e \<noteq> CancelJobEnter name)"

definition timer_sys :: "string \<Rightarrow> nat list \<Rightarrow> rt_result \<Rightarrow> rt_result list \<Rightarrow> nat \<Rightarrow> service \<Rightarrow> bool" where
  "timer_sys name ts x rest j s =
     (sys_ok s \<and> j < nextid s \<and> jname (tasks s j) = name \<and>
      timer_only ts x rest (tasks s j) \<and>
      (pc (tasks s j) = StopFinalise \<or> pc (tasks s j) = Exited \<longrightarrow> (\<forall>n. jobs s n \<noteq> Some j)))"

fun pc_rank :: "pc \<Rightarrow> nat" where
  "pc_rank AtSelect = 6"
| "pc_rank TimerLoad = 5"
| "pc_rank TimerStore = 4"
| "pc_rank TimerCall = 3"
| "pc_rank TimerExec = 2"
| "pc_rank TimerClear = 1"
| "pc_rank StopDelete = 2"
| "pc_rank StopFinalise = 1"
| "pc_rank _ = 0"

definition remaining :: "nat \<Rightarrow> (service \<times> service) set" where
  "remaining j =
     measures [\<lambda>s. length (script (tasks s j)), \<lambda>s. pc_rank (pc (tasks s j)),
               \<lambda>s. runtime (tasks s j) - clock s]"

definition trace_two_runs :: "event list" where
  "trace_two_runs =
     [CallScheduleJob ''A'' 9 (Some ()), Step 0, Pick 0 BTimer, Step 0, Step 0, Step 0, Step 0,
      RunJobEnter ''A'', Step 0, Step 0, Tick, RunJobSignal 1, Pick 0 BTimer, Step 0, Step 0,
      Step 0, Step 0, Step 0, Step 0, Step 0, Step 0]"

definition failing_C :: service where
  "failing_C = snd (SchedulePeriodicJob New ''C'' (Some [At 0, Failed]) (Some ()))"

definition trace_one_run :: "event list" where
  "trace_one_run =
     [Step 0, Pick 0 BTimer, Step 0, Step 0, Step 0, Step 0, Step 0, Step 0, Step 0, Step 0]"

section \<open>Invariants of every interleaving\<close>

lemma finalise_task_elims:
  assumes "finalise_task nxt m t = Some (e, t')"
  obtains (closes) "\<not> stateLock (jrec t)" "\<not> is_closed (cancelCh (jrec t))"
      "\<not> is_closed (runCh (jrec t))" "e = Pure"
      "t' = t\<lparr>jrec := (jrec t)\<lparr>finalised := True,
                 cancelCh := (cancelCh (jrec t))\<lparr>is_closed := True\<rparr>,
                 runCh := (runCh (jrec t))\<lparr>is_closed := True\<rparr>\<rparr>,
               finalise_calls := Suc (finalise_calls t), cancelled := cancelled t + m,
               pc := nxt\<rparr>"
  | (panics_cancel) "\<not> stateLock (jrec t)" "is_closed (cancelCh (jrec t))" "e = Panic"
      "t' = t\<lparr>jrec := (jrec t)\<lparr>finalised := True\<rparr>,
               finalise_calls := Suc (finalise_calls t)\<rparr>"
  | (panics_run) "\<not> stateLock (jrec t)" "\<not> is_closed (cancelCh (jrec t))"
      "is_closed (runCh (jrec t))" "e = Panic"
      "t' = t\<lparr>jrec := (jrec t)\<lparr>finalised := True,
                 cancelCh := (cancelCh (jrec t))\<lparr>is_closed := True\<rparr>\<rparr>,
               finalise_calls := Suc (finalise_calls t)\<rparr>"
  using assms
  by (auto simp: finalise_task_def finaliseJob_def chan_close_def split: if_splits)

lemmas task_ok_defs = task_ok_def chans_ok_def oneoff_ok_def active_src_def timer_due_def
  at_branch_def

lemma task_ok_new: "task_ok c (new_task n p rt sc)"
  by (simp add: task_ok_defs new_task_def new_job_def make_chan_def)

lemma registrable_new: "registrable (new_task n p rt sc)"
  by (simp add: registrable_def new_task_def new_job_def make_chan_def)

lemma task_ok_clock: "task_ok c t \<Longrightarrow> task_ok (Suc c) t"
  by (auto simp: task_ok_def timer_due_def)

lemma task_ok_advance:
  "task_ok c t \<Longrightarrow> advance t = Some (e, t') \<Longrightarrow>
     task_ok c t' \<and> e \<noteq> Panic \<and> jname t' = jname t \<and>
     (registrable t \<longrightarrow> registrable t' \<or> e = DeleteEntry)"
  by (cases "pc t"; simp add: advance_def split: if_splits list.splits rt_result.splits;
      (erule finalise_task_elims)?; clarsimp simp: task_ok_defs registrable_def)

lemma task_ok_pick:
  "task_ok c t \<Longrightarrow> pick c b t = Some (e, t') \<Longrightarrow>
     task_ok c t' \<and> e \<noteq> Panic \<and> jname t' = jname t \<and>
     (registrable t \<longrightarrow> registrable t' \<or> e = DeleteEntry)"
  by (cases b; simp add: pick_def chan_ready_def chan_recv_def split: if_splits;
      clarsimp simp: task_ok_defs registrable_def)

lemma task_ok_run_signal:
  "task_ok c t \<Longrightarrow> 0 < pend_run t \<Longrightarrow> \<not> stateLock (jrec t) \<Longrightarrow> run_signal t = (res, e, t') \<Longrightarrow>
     task_ok c t' \<and> e \<noteq> Panic \<and> jname t' = jname t \<and>
     (registrable t \<longrightarrow> registrable t' \<or> e = DeleteEntry)"
  by (simp add: run_signal_def runJob_def chan_send_def chan_park_def split: if_splits;
      clarsimp simp: task_ok_defs registrable_def cong: pc.case_cong)

lemma task_ok_cancel_signal:
  "task_ok c t \<Longrightarrow> 0 < pend_cancel t \<Longrightarrow> \<not> stateLock (jrec t) \<Longrightarrow>
   cancel_signal t = (res, e, t') \<Longrightarrow>
     task_ok c t' \<and> e \<noteq> Panic \<and> jname t' = jname t \<and>
     (registrable t \<longrightarrow> registrable t' \<or> e = DeleteEntry)"
  by (simp add: cancel_signal_def cancelSignal_def chan_send_def chan_park_def split: if_splits;
      clarsimp simp: task_ok_defs registrable_def cong: pc.case_cong)

lemma task_ok_ctx: "task_ok c (t\<lparr>ctx_done := x\<rparr>) = task_ok c t"
  by (simp add: task_ok_defs cong: pc.case_cong)

lemma task_ok_pend_run: "task_ok c (t\<lparr>pend_run := n\<rparr>) = task_ok c t"
  by (simp add: task_ok_defs cong: pc.case_cong)

lemma task_ok_pend_cancel: "task_ok c (t\<lparr>pend_cancel := n\<rparr>) = task_ok c t"
  by (simp add: task_ok_defs cong: pc.case_cong)

lemma sys_ok_New: "sys_ok New"
  by (simp add: sys_ok_def New_def task_ok_new)

lemma sys_ok_on_task:
  assumes "sys_ok s" and "task_ok (clock s) t'" and "e \<noteq> Panic"
    and "jname t' = jname (tasks s j)"
    and "registrable (tasks s j) \<longrightarrow> registrable t' \<or> e = DeleteEntry"
  shows "sys_ok (on_task j (e, t') s)"
  using assms by (cases e) (auto simp: sys_ok_def on_task_def)

lemma sys_ok_local_step:
  assumes "sys_ok s" and "local_step j (Some (e, t')) s = Some s'"
    and "task_ok (clock s) t' \<and> e \<noteq> Panic \<and> jname t' = jname (tasks s j) \<and>
         (registrable (tasks s j) \<longrightarrow> registrable t' \<or> e = DeleteEntry)"
  shows "sys_ok s'"
  using assms sys_ok_on_task [of s t' e j]
  by (simp add: local_step_def split: if_splits)

lemma jname_new_task: "jname (new_task n p rt sc) = n"
  by (simp add: new_task_def)

lemma sys_ok_spawn:
  assumes "sys_ok s" and "jobs s name = None"
  shows "sys_ok (spawn s name p rt sc)"
  using assms
  by (auto simp: sys_ok_def spawn_def task_ok_new registrable_new jname_new_task less_Suc_eq)

lemma RunJob_lookup_on_task:
  "jobs s name = Some j \<Longrightarrow> jname (tasks s j) = name \<Longrightarrow>
   snd (RunJob_lookup s name) =
     on_task j (if periodic (jrec (tasks s j)) then Pure else DeleteEntry,
                (tasks s j)\<lparr>pend_run := Suc (pend_run (tasks s j))\<rparr>) s"
  by (simp add: RunJob_lookup_def on_task_def)

lemma CancelJob_lookup_on_task:
  "jobs s name = Some j \<Longrightarrow> jname (tasks s j) = name \<Longrightarrow>
   snd (CancelJob_lookup s name) =
     on_task j (DeleteEntry, (tasks s j)\<lparr>pend_cancel := Suc (pend_cancel (tasks s j))\<rparr>) s"
  by (simp add: CancelJob_lookup_def on_task_def)

lemma sys_ok_RunJob_lookup:
  assumes "sys_ok s" shows "sys_ok (snd (RunJob_lookup s name))"
proof (cases "jobs s name")
  case None
  then show ?thesis using assms by (simp add: RunJob_lookup_def)
next
  case (Some j)
  have jn: "jname (tasks s j) = name" and tk: "task_ok (clock s) (tasks s j)"
    using assms Some by (auto simp: sys_ok_def)
  show ?thesis
    unfolding RunJob_lookup_on_task [OF Some jn]
    using assms tk
    by (intro sys_ok_on_task) (auto simp: task_ok_pend_run registrable_def)
qed

lemma sys_ok_CancelJob_lookup:
  assumes "sys_ok s" shows "sys_ok (snd (CancelJob_lookup s name))"
proof (cases "jobs s name")
  case None
  then show ?thesis using assms by (simp add: CancelJob_lookup_def)
next
  case (Some j)
  have jn: "jname (tasks s j) = name" and tk: "task_ok (clock s) (tasks s j)"
    using assms Some by (auto simp: sys_ok_def)
  show ?thesis
    unfolding CancelJob_lookup_on_task [OF Some jn]
    using assms tk
    by (intro sys_ok_on_task) (auto simp: task_ok_pend_cancel)
qed

lemma sys_ok_step:
  assumes "sys_ok s" and "step e s = Some s'"
  shows "sys_ok s'"
proof (cases e)
  case Tick
  then show ?thesis using assms by (auto simp: step_def sys_ok_def task_ok_clock split: if_splits)
next
  case (CtxDone j)
  then have "local_step j (Some (Pure, (tasks s j)\<lparr>ctx_done := True\<rparr>)) s = Some s'"
    using assms by (simp add: step_def split: if_splits)
  moreover have "task_ok (clock s) (tasks s j)" using assms by (simp add: sys_ok_def)
  ultimately show ?thesis
    using assms(1) by (rule_tac sys_ok_local_step) (auto simp: task_ok_ctx registrable_def)
next
  case (CallScheduleJob name rt f)
  then show ?thesis using assms
    by (auto simp: step_def ScheduleJob_def sys_ok_spawn split: if_splits)
next
  case (CallSchedulePeriodicJob name rf f)
  then show ?thesis using assms
    by (auto simp: step_def SchedulePeriodicJob_def sys_ok_spawn split: if_splits option.splits)
next
  case (RunJobEnter name)
  then show ?thesis using assms
    by (auto simp: step_def sys_ok_RunJob_lookup split: if_splits)
next
  case (RunJobSignal j)
  then have ls: "local_step j (Some (snd (run_signal (tasks s j)))) s = Some s'"
    and pr: "0 < pend_run (tasks s j)" "\<not> stateLock (jrec (tasks s j))"
    using assms by (auto simp: step_def split: if_splits)
  obtain res e t' where rs: "run_signal (tasks s j) = (res, e, t')"
    by (cases "run_signal (tasks s j)") auto
  have "task_ok (clock s) (tasks s j)" using assms by (simp add: sys_ok_def)
  from task_ok_run_signal [OF this pr rs] ls rs assms(1) show ?thesis
    by (rule_tac sys_ok_local_step) auto
next
  case (CancelJobEnter name)
  then show ?thesis using assms
    by (auto simp: step_def sys_ok_CancelJob_lookup split: if_splits)
next
  case (CancelJobSignal j)
  then have ls: "local_step j (Some (snd (cancel_signal (tasks s j)))) s = Some s'"
    and pr: "0 < pend_cancel (tasks s j)" "\<not> stateLock (jrec (tasks s j))"
    using assms by (auto simp: step_def split: if_splits)
  obtain res e t' where rs: "cancel_signal (tasks s j) = (res, e, t')"
    by (cases "cancel_signal (tasks s j)") auto
  have "task_ok (clock s) (tasks s j)" using assms by (simp add: sys_ok_def)
  from task_ok_cancel_signal [OF this pr rs] ls rs assms(1) show ?thesis
    by (rule_tac sys_ok_local_step) auto
next
  case (Pick j b)
  then have ls: "local_step j (pick (clock s) b (tasks s j)) s = Some s'"
    using assms by (simp add: step_def split: if_splits)
  then obtain e t' where pk: "pick (clock s) b (tasks s j) = Some (e, t')"
    by (cases "pick (clock s) b (tasks s j)") (auto simp: local_step_def split: if_splits)
  have "task_ok (clock s) (tasks s j)" using assms by (simp add: sys_ok_def)
  from task_ok_pick [OF this pk] ls pk assms(1) show ?thesis
    by (rule_tac sys_ok_local_step) auto
next
  case (Step j)
  then have ls: "local_step j (advance (tasks s j)) s = Some s'"
    using assms by (simp add: step_def split: if_splits)
  then obtain e t' where pk: "advance (tasks s j) = Some (e, t')"
    by (cases "advance (tasks s j)") (auto simp: local_step_def split: if_splits)
  have "task_ok (clock s) (tasks s j)" using assms by (simp add: sys_ok_def)
  from task_ok_advance [OF this pk] ls pk assms(1) show ?thesis
    by (rule_tac sys_ok_local_step) auto
qed

lemma sys_ok_run: "sys_ok s \<Longrightarrow> run es s = Some s' \<Longrightarrow> sys_ok s'"
  by (induction es arbitrary: s) (auto split: option.splits dest: sys_ok_step)

lemma sys_ok_reach: "run es New = Some s \<Longrightarrow> sys_ok s"
  using sys_ok_run [OF sys_ok_New] .

lemma on_task_tasks: "tasks (on_task k r s) j = (if j = k then snd r else tasks s j)"
  by (cases r; cases "fst r") (simp_all add: on_task_def)

lemma on_task_nextid: "nextid (on_task k r s) = nextid s"
  by (cases r; cases "fst r") (simp_all add: on_task_def)

lemma on_task_clock: "clock (on_task k r s) = clock s"
  by (cases r; cases "fst r") (simp_all add: on_task_def)

lemma task_step_refl: "task_step c t t"
  by (simp add: task_step_def)

lemma task_step_pick: "pick c b t = Some (e, t') \<Longrightarrow> task_step c t t'"
  unfolding task_step_def by blast

lemma task_step_advance: "advance t = Some (e, t') \<Longrightarrow> task_step c t t'"
  unfolding task_step_def by blast

lemma task_step_run_signal:
  "0 < pend_run t \<Longrightarrow> \<not> stateLock (jrec t) \<Longrightarrow> task_step c t (snd (snd (run_signal t)))"
  unfolding task_step_def by blast

lemma task_step_cancel_signal:
  "0 < pend_cancel t \<Longrightarrow> \<not> stateLock (jrec t) \<Longrightarrow>
   task_step c t (snd (snd (cancel_signal t)))"
  unfolding task_step_def by blast

lemma task_step_ctx: "task_step c t (t\<lparr>ctx_done := True\<rparr>)"
  unfolding task_step_def by blast

lemma task_step_pend_run: "task_step c t (t\<lparr>pend_run := Suc (pend_run t)\<rparr>)"
  unfolding task_step_def by blast

lemma task_step_pend_cancel: "task_step c t (t\<lparr>pend_cancel := Suc (pend_cancel t)\<rparr>)"
  unfolding task_step_def by blast

lemma local_step_task:
  assumes "local_step k (Some (e, t')) s = Some s'" and "task_step (clock s) (tasks s k) t'"
    and "j < nextid s"
  shows "task_step (clock s) (tasks s j) (tasks s' j) \<and> j < nextid s' \<and> clock s \<le> clock s'"
  using assms
  by (auto simp: local_step_def on_task_tasks on_task_nextid on_task_clock task_step_refl
      split: if_splits)

lemma step_task:
  assumes "step e s = Some s'" and "j < nextid s"
  shows "task_step (clock s) (tasks s j) (tasks s' j) \<and> j < nextid s' \<and> clock s \<le> clock s'"
proof (cases e)
  case Tick
  then show ?thesis using assms by (auto simp: step_def task_step_refl split: if_splits)
next
  case (CtxDone k)
  then have "local_step k (Some (Pure, (tasks s k)\<lparr>ctx_done := True\<rparr>)) s = Some s'"
    using assms by (simp add: step_def split: if_splits)
  from local_step_task [OF this task_step_ctx assms(2)] show ?thesis .
next
  case (CallScheduleJob name rt f)
  then show ?thesis using assms
    by (auto simp: step_def ScheduleJob_def spawn_def task_step_refl split: if_splits)
next
  case (CallSchedulePeriodicJob name rf f)
  then show ?thesis using assms
    by (auto simp: step_def SchedulePeriodicJob_def spawn_def task_step_refl
        split: if_splits option.splits)
next
  case (RunJobEnter name)
  then show ?thesis using assms
    by (auto simp: step_def RunJob_lookup_def task_step_refl task_step_pend_run
        split: if_splits option.splits)
next
  case (RunJobSignal k)
  then have ls: "local_step k (Some (snd (run_signal (tasks s k)))) s = Some s'"
    and pr: "0 < pend_run (tasks s k)" "\<not> stateLock (jrec (tasks s k))"
    using assms by (auto simp: step_def split: if_splits)
  have "snd (run_signal (tasks s k)) =
      (fst (snd (run_signal (tasks s k))), snd (snd (run_signal (tasks s k))))" by simp
  with ls have "local_step k
      (Some (fst (snd (run_signal (tasks s k))), snd (snd (run_signal (tasks s k))))) s = Some s'"
    by simp
  from local_step_task [OF this task_step_run_signal [OF pr] assms(2)] show ?thesis .
next
  case (CancelJobEnter name)
  then show ?thesis using assms
    by (auto simp: step_def CancelJob_lookup_def task_step_refl task_step_pend_cancel
        split: if_splits option.splits)
next
  case (CancelJobSignal k)
  then have ls: "local_step k (Some (snd (cancel_signal (tasks s k)))) s = Some s'"
    and pr: "0 < pend_cancel (tasks s k)" "\<not> stateLock (jrec (tasks s k))"
    using assms by (auto simp: step_def split: if_splits)
  have "snd (cancel_signal (tasks s k)) =
      (fst (snd (cancel_signal (tasks s k))), snd (snd (cancel_signal (tasks s k))))" by simp
  with ls have "local_step k
      (Some (fst (snd (cancel_signal (tasks s k))), snd (snd (cancel_signal (tasks s k))))) s
      = Some s'"
    by simp
  from local_step_task [OF this task_step_cancel_signal [OF pr] assms(2)] show ?thesis .
next
  case (Pick k b)
  then have ls: "local_step k (pick (clock s) b (tasks s k)) s = Some s'"
    using assms by (simp add: step_def split: if_splits)
  then obtain e t' where pk: "pick (clock s) b (tasks s k) = Some (e, t')"
    by (cases "pick (clock s) b (tasks s k)") (auto simp: local_step_def split: if_splits)
  from local_step_task [OF ls [unfolded pk] task_step_pick [OF pk] assms(2)] show ?thesis .
next
  case (Step k)
  then have ls: "local_step k (advance (tasks s k)) s = Some s'"
    using assms by (simp add: step_def split: if_splits)
  then obtain e t' where pk: "advance (tasks s k) = Some (e, t')"
    by (cases "advance (tasks s k)") (auto simp: local_step_def split: if_splits)
  from local_step_task [OF ls [unfolded pk] task_step_advance [OF pk] assms(2)] show ?thesis .
qed

lemma shielded_advance: "shielded t \<Longrightarrow> advance t = Some (e, t') \<Longrightarrow> shielded t'"
  by (cases "pc t"; simp add: advance_def split: if_splits list.splits rt_result.splits;
      (erule finalise_task_elims)?; clarsimp simp: shielded_def)

lemma shielded_pick: "shielded t \<Longrightarrow> pick c b t = Some (e, t') \<Longrightarrow> shielded t'"
  by (cases b; simp add: pick_def chan_ready_def chan_recv_def split: if_splits;
      clarsimp simp: shielded_def)

lemma shielded_run_signal: "shielded t \<Longrightarrow> shielded (snd (snd (run_signal t)))"
  by (auto simp: run_signal_def runJob_def chan_send_def chan_park_def shielded_def)

lemma shielded_cancel_signal: "shielded t \<Longrightarrow> shielded (snd (snd (cancel_signal t)))"
  by (auto simp: cancel_signal_def cancelSignal_def chan_send_def chan_park_def shielded_def)

lemma shielded_task_step: "shielded t \<Longrightarrow> task_step c t t' \<Longrightarrow> shielded t'"
  unfolding task_step_def
  apply (elim disjE exE conjE)
         apply simp
        apply (erule (1) shielded_pick)
       apply (erule (1) shielded_advance)
      apply (simp add: shielded_run_signal)
     apply (simp add: shielded_cancel_signal)
    apply (simp_all add: shielded_def)
  done

lemma shielded_run:
  "run es s = Some s' \<Longrightarrow> j < nextid s \<Longrightarrow> shielded (tasks s j) \<Longrightarrow>
     shielded (tasks s' j) \<and> j < nextid s'"
proof (induction es arbitrary: s)
  case Nil
  then show ?case by simp
next
  case (Cons e es)
  from Cons.prems(1) obtain s1 where s1: "step e s = Some s1" and r: "run es s1 = Some s'"
    by (auto split: option.splits)
  from step_task [OF s1 Cons.prems(2)] Cons.prems(3)
  have "shielded (tasks s1 j)" "j < nextid s1" by (auto intro: shielded_task_step)
  with Cons.IH [OF r] show ?case by blast
qed

lemma cancel_src_new: "cancel_src (new_task n p rt sc)"
  by (simp add: cancel_src_def new_task_def new_job_def make_chan_def)

lemma cancel_src_frame:
  "cancel_src (t\<lparr>pc := a\<rparr>) = cancel_src t"
  "cancel_src (t\<lparr>started_timer := n\<rparr>) = cancel_src t"
  "cancel_src (t\<lparr>started_signal := n\<rparr>) = cancel_src t"
  "cancel_src (t\<lparr>errors_logged := n\<rparr>) = cancel_src t"
  "cancel_src (t\<lparr>cancelled := n\<rparr>) = cancel_src t"
  "cancel_src (t\<lparr>runtime := n\<rparr>) = cancel_src t"
  "cancel_src (t\<lparr>script := sc\<rparr>) = cancel_src t"
  "cancel_src (t\<lparr>ctx_done := x\<rparr>) = cancel_src t"
  "cancel_src (t\<lparr>jrec := (jrec t)\<lparr>active := x\<rparr>\<rparr>) = cancel_src t"
  by (simp_all add: cancel_src_def)

lemma cancel_src_finalise:
  "finalise_task nxt m t = Some (e, t') \<Longrightarrow> chans_ok t \<Longrightarrow> cancel_src t \<Longrightarrow>
     pc t \<noteq> Exited \<Longrightarrow> pc t \<noteq> RunClear \<Longrightarrow> cancel_src t'"
  apply (erule finalise_task_elims)
  apply (simp_all add: cancel_src_def chans_ok_def)
  done

lemma cancel_src_advance:
  "chans_ok t \<Longrightarrow> cancel_src t \<Longrightarrow> advance t = Some (e, t') \<Longrightarrow> cancel_src t'"
  by (cases "pc t"; simp add: advance_def split: if_splits list.splits rt_result.splits;
      (erule cancel_src_finalise)?; clarsimp simp: cancel_src_frame)

lemma chans_ok_select:
  "chans_ok t \<Longrightarrow> pc t = AtSelect \<Longrightarrow>
     \<not> is_closed (cancelCh (jrec t)) \<and> \<not> is_closed (runCh (jrec t)) \<and>
     sendq (cancelCh (jrec t)) = 0"
  by (auto simp: chans_ok_def)

lemma chans_ok_open:
  "chans_ok t \<Longrightarrow> \<not> finalised (jrec t) \<Longrightarrow>
     \<not> is_closed (cancelCh (jrec t)) \<and> buf (cancelCh (jrec t)) = 0 \<and> finalise_calls t = 0"
  by (auto simp: chans_ok_def)

lemma cancel_src_pick:
  assumes "chans_ok t" and "cancel_src t" and "pick c b t = Some (e, t')"
  shows "cancel_src t'"
proof -
  have sel: "pc t = AtSelect" using assms(3) by (simp add: pick_def split: if_splits)
  note ch = chans_ok_select [OF assms(1) sel]
  show ?thesis using assms(2,3) ch sel
    by (cases b; simp add: pick_def chan_ready_def chan_recv_def split: if_splits;
        clarsimp simp: cancel_src_def)
qed

lemma cancel_src_run_signal:
  "cancel_src t \<Longrightarrow> 0 < pend_run t \<Longrightarrow> cancel_src (snd (snd (run_signal t)))"
  by (simp add: run_signal_def runJob_def chan_send_def chan_park_def split: if_splits;
      auto simp: cancel_src_def)

lemma cancel_src_cancel_signal:
  assumes "chans_ok t" and "cancel_src t" and "0 < pend_cancel t"
  shows "cancel_src (snd (snd (cancel_signal t)))"
proof (cases "finalised (jrec t)")
  case True
  then show ?thesis using assms(2,3)
    by (simp add: cancel_signal_def cancelSignal_def split: if_splits;
        clarsimp simp: cancel_src_def)
next
  case False
  from chans_ok_open [OF assms(1) False] False assms(2,3) show ?thesis
    by (simp add: cancel_signal_def cancelSignal_def chan_send_def chan_park_def
        split: if_splits; clarsimp simp: cancel_src_def)
qed

lemma cancel_src_ctx: "cancel_src (t\<lparr>ctx_done := x\<rparr>) = cancel_src t"
  by (simp add: cancel_src_frame)

lemma cancel_src_pend_run:
  "registrable t \<Longrightarrow> cancel_src t \<Longrightarrow> cancel_src (t\<lparr>pend_run := n\<rparr>)"
  by (simp add: cancel_src_def registrable_def)

lemma cancel_src_pend_cancel:
  "registrable t \<Longrightarrow> oneoff_ok t \<Longrightarrow> cancel_src t \<Longrightarrow> cancel_src (t\<lparr>pend_cancel := n\<rparr>)"
  by (cases "pc t"; simp add: cancel_src_def registrable_def oneoff_ok_def at_branch_def)

lemma cancel_sys_New: "cancel_sys New"
  by (simp add: cancel_sys_def New_def cancel_src_new)

lemma cancel_sys_on_task: "cancel_sys s \<Longrightarrow> cancel_src t' \<Longrightarrow> cancel_sys (on_task k (e, t') s)"
  by (simp add: cancel_sys_def on_task_tasks)

lemma cancel_sys_local_step:
  "cancel_sys s \<Longrightarrow> local_step k (Some (e, t')) s = Some s' \<Longrightarrow> cancel_src t' \<Longrightarrow>
     cancel_sys s'"
  by (auto simp: local_step_def cancel_sys_on_task split: if_splits)

lemma cancel_sys_spawn: "cancel_sys s \<Longrightarrow> cancel_sys (spawn s name p rt sc)"
  by (simp add: cancel_sys_def spawn_def cancel_src_new)

lemma sys_ok_task: "sys_ok s \<Longrightarrow> chans_ok (tasks s j) \<and> oneoff_ok (tasks s j)"
  by (simp add: sys_ok_def task_ok_def)

lemma sys_ok_registered:
  "sys_ok s \<Longrightarrow> jobs s n = Some j \<Longrightarrow> jname (tasks s j) = n \<and> registrable (tasks s j)"
  by (simp add: sys_ok_def)

lemma cancel_sys_RunJob_lookup:
  assumes "sys_ok s" and "cancel_sys s" shows "cancel_sys (snd (RunJob_lookup s name))"
proof (cases "jobs s name")
  case None
  then show ?thesis using assms by (simp add: RunJob_lookup_def)
next
  case (Some j)
  from sys_ok_registered [OF assms(1) Some]
  have jn: "jname (tasks s j) = name" and rg: "registrable (tasks s j)" by simp_all
  have "cancel_src (tasks s j)" using assms(2) by (simp add: cancel_sys_def)
  from cancel_src_pend_run [OF rg this] assms(2) show ?thesis
    unfolding RunJob_lookup_on_task [OF Some jn] by (rule_tac cancel_sys_on_task)
qed

lemma cancel_sys_CancelJob_lookup:
  assumes "sys_ok s" and "cancel_sys s" shows "cancel_sys (snd (CancelJob_lookup s name))"
proof (cases "jobs s name")
  case None
  then show ?thesis using assms by (simp add: CancelJob_lookup_def)
next
  case (Some j)
  from sys_ok_registered [OF assms(1) Some]
  have jn: "jname (tasks s j) = name" and rg: "registrable (tasks s j)" by simp_all
  have "cancel_src (tasks s j)" using assms(2) by (simp add: cancel_sys_def)
  from cancel_src_pend_cancel [OF rg _ this] sys_ok_task [OF assms(1), of j] assms(2)
  show ?thesis
    unfolding CancelJob_lookup_on_task [OF Some jn] by (rule_tac cancel_sys_on_task) simp_all
qed

lemma cancel_sys_step:
  assumes "sys_ok s" and "cancel_sys s" and "step e s = Some s'"
  shows "cancel_sys s'"
proof -
  have cs: "cancel_src (tasks s j)" for j using assms(2) by (simp add: cancel_sys_def)
  have ch: "chans_ok (tasks s j)" for j using sys_ok_task [OF assms(1)] by simp
  show ?thesis
  proof (cases e)
    case Tick
    then show ?thesis using assms by (auto simp: step_def cancel_sys_def split: if_splits)
  next
    case (CtxDone j)
    then have "local_step j (Some (Pure, (tasks s j)\<lparr>ctx_done := True\<rparr>)) s = Some s'"
      using assms by (simp add: step_def split: if_splits)
    from cancel_sys_local_step [OF assms(2) this] cs show ?thesis by (simp add: cancel_src_ctx)
  next
    case (CallScheduleJob name rt f)
    then show ?thesis using assms
      by (auto simp: step_def ScheduleJob_def cancel_sys_spawn split: if_splits)
  next
    case (CallSchedulePeriodicJob name rf f)
    then show ?thesis using assms
      by (auto simp: step_def SchedulePeriodicJob_def cancel_sys_spawn
          split: if_splits option.splits)
  next
    case (RunJobEnter name)
    then show ?thesis using assms
      by (auto simp: step_def cancel_sys_RunJob_lookup split: if_splits)
  next
    case (RunJobSignal j)
    then have ls: "local_step j (Some (fst (snd (run_signal (tasks s j))),
          snd (snd (run_signal (tasks s j))))) s = Some s'"
      and pr: "0 < pend_run (tasks s j)"
      using assms by (auto simp: step_def split: if_splits)
    from cancel_sys_local_step [OF assms(2) ls] cancel_src_run_signal [OF cs pr]
    show ?thesis by simp
  next
    case (CancelJobEnter name)
    then show ?thesis using assms
      by (auto simp: step_def cancel_sys_CancelJob_lookup split: if_splits)
  next
    case (CancelJobSignal j)
    then have ls: "local_step j (Some (fst (snd (cancel_signal (tasks s j))),
          snd (snd (cancel_signal (tasks s j))))) s = Some s'"
      and pr: "0 < pend_cancel (tasks s j)"
      using assms by (auto simp: step_def split: if_splits)
    from cancel_sys_local_step [OF assms(2) ls] cancel_src_cancel_signal [OF ch cs pr]
    show ?thesis by simp
  next
    case (Pick j b)
    then have ls: "local_step j (pick (clock s) b (tasks s j)) s = Some s'"
      using assms by (simp add: step_def split: if_splits)
    then obtain e t' where pk: "pick (clock s) b (tasks s j) = Some (e, t')"
      by (cases "pick (clock s) b (tasks s j)") (auto simp: local_step_def split: if_splits)
    from cancel_sys_local_step [OF assms(2) ls [unfolded pk]] cancel_src_pick [OF ch cs pk]
    show ?thesis by simp
  next
    case (Step j)
    then have ls: "local_step j (advance (tasks s j)) s = Some s'"
      using assms by (simp add: step_def split: if_splits)
    then obtain e t' where pk: "advance (tasks s j) = Some (e, t')"
      by (cases "advance (tasks s j)") (auto simp: local_step_def split: if_splits)
    from cancel_sys_local_step [OF assms(2) ls [unfolded pk]] cancel_src_advance [OF ch cs pk]
    show ?thesis by simp
  qed
qed

lemma cancel_sys_run:
  "sys_ok s \<Longrightarrow> cancel_sys s \<Longrightarrow> run es s = Some s' \<Longrightarrow> cancel_sys s'"
proof (induction es arbitrary: s)
  case Nil
  then show ?case by simp
next
  case (Cons e es)
  from Cons.prems(3) obtain s1 where s1: "step e s = Some s1" and r: "run es s1 = Some s'"
    by (auto split: option.splits)
  from Cons.IH [OF sys_ok_step [OF Cons.prems(1) s1] cancel_sys_step [OF Cons.prems(1,2) s1] r]
  show ?case .
qed

lemma cancel_src_reach: "run es New = Some s \<Longrightarrow> cancel_src (tasks s j)"
  using cancel_sys_run [OF sys_ok_New cancel_sys_New] by (simp add: cancel_sys_def)

lemmas exec_defs = step_def local_step_def on_task_def pick_def advance_def finalise_task_def
  finaliseJob_def chan_send_def chan_park_def chan_close_def chan_ready_def chan_recv_def
  run_signal_def runJob_def cancel_signal_def cancelSignal_def ScheduleJob_def
  SchedulePeriodicJob_def spawn_def new_task_def new_job_def make_chan_def RunJob_lookup_def
  CancelJob_lookup_def New_def RunJob_def CancelJob_def runJob_at_def cancelJob_at_def
  RunJobIfExists_def CancelJobIfExists_def JobExists_def ListJobs_def


lemma runJob_at_jobs: "jobs (snd (runJob_at s j)) = jobs s"
  by (simp add: runJob_at_def run_signal_def runJob_def chan_send_def on_task_def)

lemma cancelJob_at_jobs: "jobs (snd (cancelJob_at s j)) = jobs s"
  by (simp add: cancelJob_at_def cancel_signal_def cancelSignal_def chan_send_def on_task_def)

lemma RunJobIfExists_jobs: "jobs (snd (RunJobIfExists s name)) = jobs (snd (RunJob s name))"
  by (simp add: RunJobIfExists_def split: prod.splits outcome.splits)

lemma runJob_at_finalised:
  "fst (runJob_at s k) = Returns (Some ErrJobFinalised) \<Longrightarrow> finalised (jrec (tasks s k))"
  by (simp add: runJob_at_def run_signal_def runJob_def chan_send_def
      split: if_splits prod.splits)

lemma RunJob_lookup_jrec:
  "jobs s name = Some j \<Longrightarrow> jrec (tasks (snd (RunJob_lookup s name)) j) = jrec (tasks s j)"
  by (simp add: RunJob_lookup_def)

lemma step_RunJobSignal:
  "step (RunJobSignal k) s = Some s' \<Longrightarrow> s' = snd (runJob_at s k)"
  by (cases "run_signal (tasks s k)")
     (auto simp: step_def local_step_def runJob_at_def split: if_splits)


lemma no_send_pick:
  "pick c b t = Some (e, t') \<Longrightarrow>
     fst (queued t') \<le> fst (queued t) \<and> snd (queued t') \<le> snd (queued t)"
  by (cases b; simp add: pick_def chan_ready_def chan_recv_def split: if_splits;
      clarsimp simp: queued_def)

lemma no_send_advance:
  "advance t = Some (e, t') \<Longrightarrow>
     fst (queued t') \<le> fst (queued t) \<and> snd (queued t') \<le> snd (queued t)"
  by (cases "pc t"; simp add: advance_def split: if_splits list.splits rt_result.splits;
      (erule finalise_task_elims)?; clarsimp simp: queued_def)

lemma no_send_task_step:
  assumes "finalised (jrec t)" and "task_step c t t'"
  shows "fst (queued t') \<le> fst (queued t) \<and> snd (queued t') \<le> snd (queued t)"
  using assms(2) unfolding task_step_def
  apply (elim disjE exE conjE)
         apply simp
        apply (erule no_send_pick)
       apply (erule no_send_advance)
      apply (simp add: run_signal_def runJob_def queued_def assms(1))
     apply (simp add: cancel_signal_def cancelSignal_def queued_def assms(1))
    apply (simp_all add: queued_def)
  done


lemma registered_registrable: "sys_ok s \<Longrightarrow> jobs s n = Some j \<Longrightarrow> registrable (tasks s j)"
  by (simp add: sys_ok_def)

lemma CancelJob_other_task:
  assumes "jobs s n \<noteq> Some j"
  shows "tasks (snd (CancelJob s n)) j = tasks s j"
proof (cases "jobs s n")
  case None
  then show ?thesis by (simp add: CancelJob_def CancelJob_lookup_def)
next
  case (Some k)
  with assms have "k \<noteq> j" by simp
  with Some show ?thesis
    by (simp add: CancelJob_def CancelJob_lookup_def cancelJob_at_def on_task_tasks
        split: prod.splits)
qed

lemma oneoff_started:
  assumes "oneoff_ok t" and "timer_due c t" and "\<not> periodic (jrec t)"
  shows "(BRun \<notin> set (picks t) \<longrightarrow> started_signal t = 0) \<and>
         (0 < started_timer t \<longrightarrow> picks t = [BTimer] \<and> runtime t \<le> c) \<and>
         (BCancel \<in> set (picks t) \<longrightarrow> started_timer t = 0 \<and> started_signal t = 0) \<and>
         (pc t = AtSelect \<longrightarrow> picks t = [])"
  using assms by (cases "pc t") (auto simp: oneoff_ok_def at_branch_def timer_due_def)

lemma cancel_delivered:
  assumes "chans_ok t" and "cancel_src t" and "0 < cancel_ok t" and "pc t = AtSelect"
    and "picks t = []"
  shows "buf (cancelCh (jrec t)) = 1"
  using assms by (auto simp: chans_ok_def cancel_src_def)

lemma shielded_after_signal:
  assumes "task_ok c t" and "\<not> periodic (jrec t)" and "c < runtime t"
    and "run_ok (snd (snd (run_signal t))) = Suc (run_ok t)"
  shows "shielded (snd (snd (run_signal t)))"
  using assms
  by (cases "pc t";
      clarsimp simp: run_signal_def runJob_def chan_send_def chan_park_def shielded_def
        task_ok_defs split: if_splits;
      (elim disjE; simp))

lemma run_now_excludes_timer:
  assumes "run es1 New = Some s1"
    and "step (RunJobSignal j) s1 = Some s2"
    and "run_ok (tasks s2 j) = Suc (run_ok (tasks s1 j))"
    and "\<not> periodic (jrec (tasks s1 j))"
    and "clock s1 < runtime (tasks s1 j)"
    and "run es2 s2 = Some s3"
  shows "(\<forall>n. jobs s1 n \<noteq> Some j) \<and>
         started_timer (tasks s3 j) = 0 \<and> started_signal (tasks s3 j) \<le> 1 \<and>
         length (picks (tasks s3 j)) \<le> 1 \<and>
         (pc (tasks s3 j) = Exited \<and> BRun \<in> set (picks (tasks s3 j)) \<longrightarrow>
            started_signal (tasks s3 j) = 1) \<and>
         (BRun \<notin> set (picks (tasks s3 j)) \<longrightarrow> started_signal (tasks s3 j) = 0)"
proof -
  have ok1: "sys_ok s1" using assms(1) by (rule sys_ok_reach)
  from assms(2) have pr: "0 < pend_run (tasks s1 j)" and lk: "\<not> stateLock (jrec (tasks s1 j))"
    and j: "j < nextid s1"
    and t2: "tasks s2 j = snd (snd (run_signal (tasks s1 j)))"
    by (auto simp: step_def local_step_def on_task_tasks split: if_splits prod.splits)
  have unreg: "\<forall>n. jobs s1 n \<noteq> Some j"
    using registered_registrable [OF ok1, of _ j] pr assms(4)
    by (auto simp: registrable_def)
  have tk: "task_ok (clock s1) (tasks s1 j)" using ok1 by (simp add: sys_ok_def)
  have sh2: "shielded (tasks s2 j)"
    unfolding t2 using tk assms(4,5) assms(3) [unfolded t2] by (rule shielded_after_signal)
  from step_task [OF assms(2) j] have j2: "j < nextid s2" by simp
  from shielded_run [OF assms(6) j2 sh2] have sh3: "shielded (tasks s3 j)" by simp
  have ok3: "sys_ok s3" using sys_ok_run [OF sys_ok_step [OF ok1 assms(2)] assms(6)] .
  then have o3: "oneoff_ok (tasks s3 j)" by (simp add: sys_ok_def task_ok_def)
  from sh3 have np: "\<not> periodic (jrec (tasks s3 j))" and st: "started_timer (tasks s3 j) = 0"
    by (simp_all add: shielded_def)
  have rest: "started_signal (tasks s3 j) \<le> 1 \<and> length (picks (tasks s3 j)) \<le> 1 \<and>
         (pc (tasks s3 j) = Exited \<and> BRun \<in> set (picks (tasks s3 j)) \<longrightarrow>
            started_signal (tasks s3 j) = 1) \<and>
         (BRun \<notin> set (picks (tasks s3 j)) \<longrightarrow> started_signal (tasks s3 j) = 0)"
    using o3 np by (cases "pc (tasks s3 j)") (auto simp: oneoff_ok_def at_branch_def)
  from unreg st rest show ?thesis by blast
qed

lemma script_head:
  assumes "sc = map At (drop k ts) @ x # rest" and "k \<le> length ts"
  shows "(k < length ts \<and> sc = At (ts ! k) # map At (drop (Suc k) ts) @ x # rest) \<or>
         (k = length ts \<and> sc = x # rest)"
proof (cases "k < length ts")
  case True
  then have "drop k ts = ts ! k # drop (Suc k) ts" by (simp add: Cons_nth_drop_Suc)
  with assms True show ?thesis by simp
next
  case False
  with assms show ?thesis by simp
qed

lemma timer_only_runtime:
  assumes "timer_only ts x rest t" and "pc t = AtRuntime"
  shows "\<exists>t'. advance t = Some (Pure, t') \<and> timer_only ts x rest t' \<and>
              length (script t') < length (script t) \<and> jname t' = jname t"
proof -
  from assms have it: "iterating t ts x rest (started_timer t) False"
    and x: "x = NoMoreInstances \<or> x = Failed"
    and base: "periodic (jrec t)" "\<not> stateLock (jrec t)" "started_signal t = 0"
      "\<not> ctx_done t" "pend_run t = 0" "pend_cancel t = 0"
      "buf (runCh (jrec t)) = 0" "buf (cancelCh (jrec t)) = 0"
    by (simp_all add: timer_only_def)
  from it have sc: "script t = map At (drop (started_timer t) ts) @ x # rest"
    and le: "started_timer t \<le> length ts"
    by (simp_all add: iterating_def)
  from script_head [OF sc le] show ?thesis
  proof
    assume "started_timer t < length ts \<and>
      script t = At (ts ! started_timer t) # map At (drop (Suc (started_timer t)) ts) @ x # rest"
    then show ?thesis using assms it x base
      by (simp add: advance_def timer_only_def iterating_def)
  next
    assume "started_timer t = length ts \<and> script t = x # rest"
    then show ?thesis using assms it x base
      by (auto simp: advance_def timer_only_def iterating_def stopping_def)
  qed
qed

lemma timer_only_advance:
  assumes "timer_only ts x rest t" and "pc t \<noteq> AtSelect" and "pc t \<noteq> Exited" and "pc t \<noteq> AtRuntime"
  shows "\<exists>e t'. advance t = Some (e, t') \<and> e \<noteq> Panic \<and> timer_only ts x rest t' \<and>
           script t' = script t \<and> pc_rank (pc t') < pc_rank (pc t) \<and> jname t' = jname t \<and>
           (pc t' = StopFinalise \<longrightarrow> e = DeleteEntry) \<and> (pc t' = Exited \<longrightarrow> pc t = StopFinalise)"
  using assms
  by (cases "pc t";
      clarsimp simp: timer_only_def advance_def iterating_def stopping_def stopped_def
        finalise_task_def finaliseJob_def chan_close_def)

lemma timer_only_pick:
  assumes "timer_only ts x rest t" and "pc t = AtSelect" and "runtime t \<le> c"
  shows "\<exists>t'. pick c BTimer t = Some (Pure, t') \<and> timer_only ts x rest t' \<and>
           script t' = script t \<and> pc_rank (pc t') < pc_rank (pc t) \<and> jname t' = jname t \<and>
           pc t' = TimerLoad"
  using assms by (simp add: pick_def timer_only_def iterating_def)

lemma advance_unique: "advance t = Some (e, t') \<Longrightarrow> advance t = Some (e2, t2) \<Longrightarrow> e2 = e \<and> t2 = t'"
  by simp

lemma timer_only_pick_only:
  "timer_only ts x rest t \<Longrightarrow> pick c b t = Some r \<Longrightarrow> b = BTimer"
  by (cases b; cases "pc t";
      simp add: pick_def chan_ready_def timer_only_def iterating_def split: if_splits)

lemma on_task_jobs: "jobs (on_task k r s) n = Some j \<Longrightarrow> jobs s n = Some j"
  by (cases r; cases "fst r") (auto simp: on_task_def split: if_splits)

lemma local_step_jobs:
  "local_step k r s = Some s' \<Longrightarrow> jobs s' n = Some j \<Longrightarrow> jobs s n = Some j"
  by (auto simp: local_step_def split: if_splits option.splits dest: on_task_jobs)

lemma step_registry:
  assumes "step e s = Some s'" and "j < nextid s" and "jobs s' n = Some j"
  shows "jobs s n = Some j"
proof (cases e)
  case Tick
  then show ?thesis using assms by (auto simp: step_def split: if_splits)
next
  case (CtxDone k)
  then show ?thesis using assms by (auto simp: step_def split: if_splits dest: local_step_jobs)
next
  case (CallScheduleJob name rt f)
  then show ?thesis using assms
    by (auto simp: step_def ScheduleJob_def spawn_def split: if_splits)
next
  case (CallSchedulePeriodicJob name rf f)
  then show ?thesis using assms
    by (auto simp: step_def SchedulePeriodicJob_def spawn_def split: if_splits option.splits)
next
  case (RunJobEnter name)
  then show ?thesis using assms
    by (auto simp: step_def RunJob_lookup_def split: if_splits option.splits)
next
  case (RunJobSignal k)
  then show ?thesis using assms by (auto simp: step_def split: if_splits dest: local_step_jobs)
next
  case (CancelJobEnter name)
  then show ?thesis using assms
    by (auto simp: step_def CancelJob_lookup_def split: if_splits option.splits)
next
  case (CancelJobSignal k)
  then show ?thesis using assms by (auto simp: step_def split: if_splits dest: local_step_jobs)
next
  case (Pick k b)
  then show ?thesis using assms by (auto simp: step_def split: if_splits dest: local_step_jobs)
next
  case (Step k)
  then show ?thesis using assms by (auto simp: step_def split: if_splits dest: local_step_jobs)
qed

lemma local_step_other: "local_step k r s = Some s' \<Longrightarrow> k \<noteq> j \<Longrightarrow> tasks s' j = tasks s j"
  by (auto simp: local_step_def on_task_tasks split: if_splits option.splits)

lemma step_frame:
  assumes "step e s = Some s'" and "sys_ok s" and "j < nextid s"
    and "quiet (jname (tasks s j)) j e"
    and "e \<noteq> Step j" and "\<forall>b. e \<noteq> Pick j b" and "e \<noteq> RunJobSignal j"
    and "e \<noteq> CancelJobSignal j"
  shows "tasks s' j = tasks s j"
proof (cases e)
  case Tick
  then show ?thesis using assms(1) by (auto simp: step_def split: if_splits)
next
  case (CtxDone k)
  then show ?thesis using assms(1,4)
    by (auto simp: step_def quiet_def split: if_splits dest: local_step_other)
next
  case (CallScheduleJob name rt f)
  then show ?thesis using assms(1,3)
    by (auto simp: step_def ScheduleJob_def spawn_def split: if_splits)
next
  case (CallSchedulePeriodicJob name rf f)
  then show ?thesis using assms(1,3)
    by (auto simp: step_def SchedulePeriodicJob_def spawn_def split: if_splits option.splits)
next
  case (RunJobEnter name)
  have "jobs s name \<noteq> Some j"
    using sys_ok_registered [OF assms(2), of name j] assms(4) RunJobEnter
    by (auto simp: quiet_def)
  then show ?thesis using assms(1) RunJobEnter
    by (auto simp: step_def RunJob_lookup_def split: if_splits option.splits)
next
  case (RunJobSignal k)
  then show ?thesis using assms(1,7)
    by (auto simp: step_def split: if_splits dest: local_step_other)
next
  case (CancelJobEnter name)
  have "jobs s name \<noteq> Some j"
    using sys_ok_registered [OF assms(2), of name j] assms(4) CancelJobEnter
    by (auto simp: quiet_def)
  then show ?thesis using assms(1) CancelJobEnter
    by (auto simp: step_def CancelJob_lookup_def split: if_splits option.splits)
next
  case (CancelJobSignal k)
  then show ?thesis using assms(1,8)
    by (auto simp: step_def split: if_splits dest: local_step_other)
next
  case (Pick k b)
  then show ?thesis using assms(1,6)
    by (auto simp: step_def split: if_splits dest: local_step_other)
next
  case (Step k)
  then show ?thesis using assms(1,5)
    by (auto simp: step_def split: if_splits dest: local_step_other)
qed

lemma timer_sys_step:
  assumes "timer_sys name ts x rest j s" and "quiet name j e" and "step e s = Some s'"
  shows "timer_sys name ts x rest j s'"
proof -
  from assms(1) have ok: "sys_ok s" and j: "j < nextid s" and nm: "jname (tasks s j) = name"
    and t: "timer_only ts x rest (tasks s j)"
    and gone: "pc (tasks s j) = StopFinalise \<or> pc (tasks s j) = Exited \<longrightarrow>
                 (\<forall>n. jobs s n \<noteq> Some j)"
    by (simp_all add: timer_sys_def)
  have nc: "\<not> crashed s" using ok by (simp add: sys_ok_def)
  have ok': "sys_ok s'" using ok assms(3) by (rule sys_ok_step)
  from step_task [OF assms(3) j] have j': "j < nextid s'" by simp
  have only: "n = name" if "jobs s n = Some j" for n
    using sys_ok_registered [OF ok that] nm by simp
  have mono: "jobs s n = Some j" if "jobs s' n = Some j" for n
    using assms(3) j that by (rule step_registry)
  consider (adv) "e = Step j" | (pick) b where "e = Pick j b" | (rs) "e = RunJobSignal j"
    | (cs) "e = CancelJobSignal j"
    | (other) "e \<noteq> Step j" "\<forall>b. e \<noteq> Pick j b" "e \<noteq> RunJobSignal j" "e \<noteq> CancelJobSignal j"
    by blast
  then show ?thesis
  proof cases
    case adv
    with assms(3) nc j obtain ef t' where adv': "advance (tasks s j) = Some (ef, t')"
      and s': "s' = on_task j (ef, t') s"
      by (cases "advance (tasks s j)") (auto simp: step_def local_step_def)
    have tj: "tasks s' j = t'" unfolding s' by (simp add: on_task_tasks)
    from adv' have ne: "pc (tasks s j) \<noteq> AtSelect" "pc (tasks s j) \<noteq> Exited"
      by (auto simp: advance_def)
    show ?thesis
    proof (cases "pc (tasks s j) = AtRuntime")
      case True
      from timer_only_runtime [OF t True] adv' obtain
        "ef = Pure" "timer_only ts x rest t'" "jname t' = jname (tasks s j)"
        "pc t' \<noteq> StopFinalise" "pc t' \<noteq> Exited"
        using True t by (auto simp: advance_def timer_only_def split: list.splits rt_result.splits)
      then show ?thesis using ok' j' nm tj by (simp add: timer_sys_def)
    next
      case False
      from timer_only_advance [OF t ne False] adv' have
        f: "ef \<noteq> Panic" "timer_only ts x rest t'" "jname t' = jname (tasks s j)"
        "pc t' = StopFinalise \<longrightarrow> ef = DeleteEntry" "pc t' = Exited \<longrightarrow> pc (tasks s j) = StopFinalise"
        by auto
      have "\<forall>n. jobs s' n \<noteq> Some j" if p: "pc t' = StopFinalise \<or> pc t' = Exited"
      proof
        fix n
        show "jobs s' n \<noteq> Some j"
        proof
          assume a: "jobs s' n = Some j"
          from mono [OF a] have b: "jobs s n = Some j" .
          from only [OF b] have n: "n = name" .
          from p show False
          proof
            assume "pc t' = StopFinalise"
            with f(4) have "ef = DeleteEntry" by simp
            with a n f(3) nm show False unfolding s' by (simp add: on_task_def)
          next
            assume "pc t' = Exited"
            with f(5) gone b show False by simp
          qed
        qed
      qed
      then show ?thesis using ok' j' nm tj f by (simp add: timer_sys_def)
    qed
  next
    case (pick b)
    with assms(3) nc j obtain ef t' where pk: "pick (clock s) b (tasks s j) = Some (ef, t')"
      and s': "s' = on_task j (ef, t') s"
      by (cases "pick (clock s) b (tasks s j)") (auto simp: step_def local_step_def)
    have tj: "tasks s' j = t'" unfolding s' by (simp add: on_task_tasks)
    from timer_only_pick_only [OF t pk] have b: "b = BTimer" .
    from pk have at: "pc (tasks s j) = AtSelect" and due: "runtime (tasks s j) \<le> clock s"
      unfolding b by (auto simp: pick_def split: if_splits)
    from timer_only_pick [OF t at due] pk [unfolded b] have
      "ef = Pure" "timer_only ts x rest t'" "jname t' = jname (tasks s j)" "pc t' = TimerLoad"
      by auto
    then show ?thesis using ok' j' nm tj by (simp add: timer_sys_def)
  next
    case rs
    from t have "pend_run (tasks s j) = 0" by (simp add: timer_only_def)
    with rs assms(3) nc show ?thesis by (simp add: step_def)
  next
    case cs
    from t have "pend_cancel (tasks s j) = 0" by (simp add: timer_only_def)
    with cs assms(3) nc show ?thesis by (simp add: step_def)
  next
    case other
    from step_frame [OF assms(3) ok j _ other] assms(2) nm
    have same: "tasks s' j = tasks s j" by simp
    have "\<forall>n. jobs s' n \<noteq> Some j" if "\<forall>n. jobs s n \<noteq> Some j"
      using mono that by blast
    then show ?thesis using ok' j' nm t gone same by (simp add: timer_sys_def)
  qed
qed

lemma timer_events_quiet: "e \<in> timer_events j \<Longrightarrow> quiet name j e"
  by (auto simp: timer_events_def quiet_def)

lemma timer_sys_run:
  "timer_sys name ts x rest j s \<Longrightarrow> \<forall>e\<in>set es. quiet name j e \<Longrightarrow> run es s = Some s' \<Longrightarrow>
   timer_sys name ts x rest j s'"
  by (induction es arbitrary: s) (auto split: option.splits dest: timer_sys_step)

lemma timer_sys_progress:
  assumes "timer_sys name ts x rest j s" and "pc (tasks s j) \<noteq> Exited"
  shows "\<exists>e s'. e \<in> timer_events j \<and> step e s = Some s' \<and> (s', s) \<in> remaining j"
proof -
  from assms(1) have ok: "sys_ok s" and j: "j < nextid s"
    and t: "timer_only ts x rest (tasks s j)"
    by (simp_all add: timer_sys_def)
  have nc: "\<not> crashed s" using ok by (simp add: sys_ok_def)
  consider (rt) "pc (tasks s j) = AtRuntime"
    | (wait) "pc (tasks s j) = AtSelect" "clock s < runtime (tasks s j)"
    | (due) "pc (tasks s j) = AtSelect" "runtime (tasks s j) \<le> clock s"
    | (other) "pc (tasks s j) \<noteq> AtRuntime" "pc (tasks s j) \<noteq> AtSelect"
    by fastforce
  then show ?thesis
  proof cases
    case rt
    from timer_only_runtime [OF t rt] obtain t' where
      "advance (tasks s j) = Some (Pure, t')" "length (script t') < length (script (tasks s j))"
      by blast
    then have "step (Step j) s = Some (on_task j (Pure, t') s) \<and>
        (on_task j (Pure, t') s, s) \<in> remaining j"
      using nc j by (simp add: step_def local_step_def remaining_def on_task_def)
    then show ?thesis by (auto simp: timer_events_def)
  next
    case wait
    then have "step Tick s = Some (s\<lparr>clock := Suc (clock s)\<rparr>) \<and>
        (s\<lparr>clock := Suc (clock s)\<rparr>, s) \<in> remaining j"
      using nc by (auto simp: step_def remaining_def)
    then show ?thesis by (auto simp: timer_events_def)
  next
    case due
    from timer_only_pick [OF t due] obtain t' where
      "pick (clock s) BTimer (tasks s j) = Some (Pure, t')" "script t' = script (tasks s j)"
      "pc_rank (pc t') < pc_rank (pc (tasks s j))"
      by blast
    then have "step (Pick j BTimer) s = Some (on_task j (Pure, t') s) \<and>
        (on_task j (Pure, t') s, s) \<in> remaining j"
      using nc j by (simp add: step_def local_step_def remaining_def on_task_def)
    then show ?thesis by (auto simp: timer_events_def)
  next
    case other
    from timer_only_advance [OF t other(2) assms(2) other(1)] obtain e t' where
      a: "advance (tasks s j) = Some (e, t')" "script t' = script (tasks s j)"
      "pc_rank (pc t') < pc_rank (pc (tasks s j))"
      by blast
    then have "step (Step j) s = Some (on_task j (e, t') s) \<and>
        (on_task j (e, t') s, s) \<in> remaining j"
      using nc j by (simp add: step_def local_step_def remaining_def on_task_tasks)
    then show ?thesis by (auto simp: timer_events_def)
  qed
qed

lemma timer_sys_completes:
  assumes "timer_sys name ts x rest j s"
  shows "\<exists>es s'. set es \<subseteq> timer_events j \<and> run es s = Some s' \<and> pc (tasks s' j) = Exited"
proof -
  have "wf (remaining j)" by (simp add: remaining_def)
  then have "timer_sys name ts x rest j s \<longrightarrow>
    (\<exists>es s'. set es \<subseteq> timer_events j \<and> run es s = Some s' \<and> pc (tasks s' j) = Exited)"
  proof (induct s rule: wf_induct_rule)
    case (less s)
    show ?case
    proof
      assume sys: "timer_sys name ts x rest j s"
      show "\<exists>es s'. set es \<subseteq> timer_events j \<and> run es s = Some s' \<and> pc (tasks s' j) = Exited"
      proof (cases "pc (tasks s j) = Exited")
        case True
        then have "set [] \<subseteq> timer_events j \<and> run [] s = Some s \<and> pc (tasks s j) = Exited"
          by simp
        then show ?thesis by blast
      next
        case False
        from timer_sys_progress [OF sys False] obtain e s1 where
          e: "e \<in> timer_events j" and st: "step e s = Some s1" and dec: "(s1, s) \<in> remaining j"
          by blast
        from timer_sys_step [OF sys timer_events_quiet [OF e] st]
        have "timer_sys name ts x rest j s1" .
        with less [OF dec] obtain es s' where
          "set es \<subseteq> timer_events j" "run es s1 = Some s'" "pc (tasks s' j) = Exited" by blast
        with e st have "set (e # es) \<subseteq> timer_events j \<and> run (e # es) s = Some s' \<and>
            pc (tasks s' j) = Exited" by simp
        then show ?thesis by blast
      qed
    qed
  qed
  with assms show ?thesis by blast
qed

lemma timer_sys_spawn:
  assumes "sys_ok s0" and "x = NoMoreInstances \<or> x = Failed"
    and "SchedulePeriodicJob s0 name (Some (map At ts @ x # rest)) jf = (None, s1)"
  shows "timer_sys name ts x rest (nextid s0) s1"
proof -
  from assms(3) have free: "jobs s0 name = None"
    and s1: "s1 = spawn s0 name True 0 (map At ts @ x # rest)"
    by (auto simp: SchedulePeriodicJob_def split: if_splits option.splits)
  have "sys_ok s1" unfolding s1 using assms(1) free by (rule sys_ok_spawn)
  then show ?thesis using assms(2)
    by (simp add: s1 spawn_def timer_sys_def timer_only_def iterating_def
        new_task_def new_job_def make_chan_def)
qed

section \<open>Hexadecimal parsing\<close>

lemma or_32: "(c::nat) OR 32 = (if odd (c div 32) then c else c + 32)"
  using set_bit_eq [of 5 c] by (simp add: set_bit_eq_or bit_iff_odd)

lemma lower_range:
  "(97 \<le> lower c \<and> lower c \<le> 122 \<and> lower c - 97 + 10 < 16) =
     (97 \<le> c \<and> c \<le> 102 \<or> 65 \<le> c \<and> c \<le> 70)"
  "97 \<le> c \<and> c \<le> 102 \<Longrightarrow> lower c = c"
  "65 \<le> c \<and> c \<le> 70 \<Longrightarrow> lower c = c + 32"
proof -
  have a: "\<not> (65 \<le> c \<and> c \<le> 70)" if "odd (c div 32)"
  proof
    assume "65 \<le> c \<and> c \<le> 70"
    then have "c div 32 = 2" by (intro div_nat_eqI) simp_all
    with that show False by simp
  qed
  have b: "\<not> (97 \<le> c \<and> c \<le> 102)" if "even (c div 32)"
  proof
    assume "97 \<le> c \<and> c \<le> 102"
    then have "c div 32 = 3" by (intro div_nat_eqI) simp_all
    with that show False by simp
  qed
  show "(97 \<le> lower c \<and> lower c \<le> 122 \<and> lower c - 97 + 10 < 16) =
     (97 \<le> c \<and> c \<le> 102 \<or> 65 \<le> c \<and> c \<le> 70)"
  proof (cases "odd (c div 32)")
    case True
    with a have "\<not> (65 \<le> c \<and> c \<le> 70)" by simp
    with True show ?thesis by (simp add: lower_def or_32) arith
  next
    case False
    with b have "\<not> (97 \<le> c \<and> c \<le> 102)" by simp
    with False show ?thesis by (simp add: lower_def or_32) arith
  qed
  show "97 \<le> c \<and> c \<le> 102 \<Longrightarrow> lower c = c"
    using b by (auto simp: lower_def or_32)
  show "65 \<le> c \<and> c \<le> 70 \<Longrightarrow> lower c = c + 32"
    using a by (auto simp: lower_def or_32)
qed

lemma digit_spec:
  "(case digit ch of None \<Rightarrow> None | Some d \<Rightarrow> if 16 \<le> d then None else Some d)
     = hex_digit_value ch"
proof -
  define c where "c = (of_char ch :: nat)"
  consider (dec) "48 \<le> c \<and> c \<le> 57" | (low) "97 \<le> c \<and> c \<le> 102" | (up) "65 \<le> c \<and> c \<le> 70"
    | (none) "\<not> (48 \<le> c \<and> c \<le> 57)" "\<not> (97 \<le> c \<and> c \<le> 102)" "\<not> (65 \<le> c \<and> c \<le> 70)"
    by blast
  then show ?thesis
  proof cases
    case dec
    then have "c - 48 < 16" by arith
    with dec show ?thesis
      by (simp add: digit_def hex_digit_value_def Let_def c_def [symmetric])
  next
    case low
    then have "c - 87 < 16" "\<not> (48 \<le> c \<and> c \<le> 57)" by arith+
    with low lower_range(2) [OF low] show ?thesis
      by (simp add: digit_def hex_digit_value_def Let_def c_def [symmetric])
  next
    case up
    then have "c - 55 < 16" "\<not> (48 \<le> c \<and> c \<le> 57)" "\<not> (97 \<le> c \<and> c \<le> 102)"
      "c + 32 - 87 = c - 55" by arith+
    with up lower_range(3) [OF up] show ?thesis
      by (simp add: digit_def hex_digit_value_def Let_def c_def [symmetric])
  next
    case none
    with lower_range(1) [of c] show ?thesis
      by (auto simp: digit_def hex_digit_value_def Let_def c_def [symmetric])
  qed
qed

lemma hex_digit_value_less: "hex_digit_value ch = Some d \<Longrightarrow> d < 16"
  by (auto simp: hex_digit_value_def Let_def split: if_splits)

lemma hex_value_ge: "hex_value a cs = Some m \<Longrightarrow> a \<le> m"
proof (induction cs arbitrary: a)
  case Nil
  then show ?case by simp
next
  case (Cons c cs)
  then obtain d where "hex_digit_value c = Some d" "hex_value (16 * a + d) cs = Some m"
    by (auto split: option.splits)
  with Cons.IH [of "16 * a + d"] show ?case by simp
qed

lemma cutoff_val: "unat cutoff = 2 ^ 60"
  by (simp add: cutoff_def)

lemma maxVal_val: "unat maxVal = 2 ^ 64 - 1"
  by (simp add: maxVal_def)

lemma shift_digit:
  assumes "unat n < 2 ^ 60" and "d < 16"
  shows "unat (n * 16 + of_nat d :: 64 word) = 16 * unat n + d"
    and "\<not> (n * 16 + of_nat d < n * 16)" and "\<not> (maxVal < n * 16 + of_nat d)"
proof -
  have m: "unat (n * 16) = 16 * unat n"
    using assms(1) by (simp add: unat_word_ariths)
  have d: "unat (of_nat d :: 64 word) = d"
    using assms(2) by (simp add: unat_of_nat)
  show s: "unat (n * 16 + of_nat d :: 64 word) = 16 * unat n + d"
    using assms m d by (simp add: unat_word_ariths)
  show "\<not> (n * 16 + of_nat d < n * 16)"
    using s m by (simp add: word_less_nat_alt)
  show "\<not> (maxVal < n * 16 + of_nat d)"
    using s assms by (simp add: word_less_nat_alt maxVal_val)
qed

lemma parse_loop_spec:
  "parse_loop n cs = Inr v \<longleftrightarrow>
     (\<exists>m. hex_value (unat n) cs = Some m \<and> m < 2 ^ 64 \<and> v = of_nat m)"
proof (induction cs arbitrary: n)
  case Nil
  have "unat n < 2 ^ 64" using unsigned_less [of n] by simp
  then show ?case by auto
next
  case (Cons c cs)
  show ?case
  proof (cases "hex_digit_value c")
    case None
    with digit_spec [of c] show ?thesis by (auto split: option.splits if_splits)
  next
    case (Some d)
    with digit_spec [of c] have dg: "digit c = Some d" and d16: "d < 16"
      by (auto split: option.splits if_splits)
    show ?thesis
    proof (cases "unat n < 2 ^ 60")
      case True
      then have nc: "\<not> cutoff \<le> n" by (simp add: word_le_nat_alt cutoff_val)
      from shift_digit [OF True d16] Cons.IH [of "n * 16 + of_nat d"] dg d16 nc Some
      show ?thesis by simp
    next
      case False
      then have c: "cutoff \<le> n" by (simp add: word_le_nat_alt cutoff_val)
      have "\<not> m < 2 ^ 64" if "hex_value (16 * unat n + d) cs = Some m" for m
        using hex_value_ge [OF that] False by simp
      with dg d16 c Some show ?thesis by auto
    qed
  qed
qed

lemma ParseUint_spec:
  "ParseUint s = Inr v \<longleftrightarrow> valid_hex64 s \<and> v = of_nat (the (hex_value 0 s))"
  by (auto simp: ParseUint_def valid_hex64_def parse_loop_spec split: option.splits)

lemma hex_examples:
  "valid_hex64 ''1a'' \<and> hex_value 0 ''1a'' = Some 26 \<and> \<not> valid_hex64 [] \<and>
   \<not> valid_hex64 ''0X1f'' \<and> valid_hex64 ''ffffffffffffffff'' \<and>
   \<not> valid_hex64 ''10000000000000000'' \<and> TrimPrefix ''0x1a'' ''0x'' = ''1a'' \<and>
   TrimPrefix ''0X1f'' ''0x'' = ''0X1f'' \<and> TrimPrefix ''0x'' ''0x'' = []"
  by (simp add: valid_hex64_def hex_digit_value_def TrimPrefix_def)

section \<open>The claims\<close>

text \<open>
  Claim C1 does not hold of the code; \<open>run_now_lost\<close> is the run that shows it. A one-off job
  is scheduled for time 1. \<open>RunJob\<close> on its name returns nil at time 0: it has removed the
  entry, stored active and put a notification on the run channel. The clock reaches 1 and the
  select of the runner takes the timer branch, which is ready as well. That branch loads
  active, finds it set and breaks out of the select (lines 130 to 133), and the runner ends.
  In the final state the job function has been started neither on the timer path nor on the
  run signal, \<open>finaliseJob\<close> has not been called, the record is not finalised, active is still
  set, the notification is still in the run channel and the registry has no entry. So a
  successful \<open>RunJob\<close> issued before the scheduled time is followed by no execution, where the
  claim says exactly one; the periodic runner has the same guard but continues its loop and
  serves the signal. What does hold is \<open>run_now_excludes_timer\<close>: after such a \<open>RunJob\<close> the
  timer path never executes the job function and the job function is started at most once.
\<close>

theorem run_now_lost:
  "run trace_skip New \<noteq> None \<and>
   \<not> periodic (jrec (tasks (the (run trace_skip New)) 0)) \<and>
   run_ok (tasks (the (run trace_skip New)) 0) = 1 \<and>
   pc (tasks (the (run trace_skip New)) 0) = Exited \<and>
   picks (tasks (the (run trace_skip New)) 0) = [BTimer] \<and>
   started_timer (tasks (the (run trace_skip New)) 0) = 0 \<and>
   started_signal (tasks (the (run trace_skip New)) 0) = 0 \<and>
   cancelled (tasks (the (run trace_skip New)) 0) = 0 \<and>
   finalise_calls (tasks (the (run trace_skip New)) 0) = 0 \<and>
   \<not> finalised (jrec (tasks (the (run trace_skip New)) 0)) \<and>
   active (jrec (tasks (the (run trace_skip New)) 0)) \<and>
   buf (runCh (jrec (tasks (the (run trace_skip New)) 0))) = 1 \<and>
   jobs (the (run trace_skip New)) ''A'' = None"
  by (simp add: trace_skip_def exec_defs)

text \<open>
  Claim C2, as amended. In every reachable state no panic has happened, every record has been
  finalised at most once, each of its two channels is closed exactly when \<open>finaliseJob\<close> has
  been called on it, and then finalised is set. Once finalised is set, no step of any goroutine
  adds a notification (buffered or parked) to either channel. \<open>queued\<close> counts the
  notifications of the run and of the cancel channel. This holds because only the record's own
  runner calls \<open>finaliseJob\<close>, once, and because \<open>runJob\<close> and \<open>CancelJob\<close> check finalised
  under the state lock before they send; \<open>finaliseJob\<close> itself does not check finalised, as
  \<open>finaliseJob_twice_counterexample\<close> shows: called on a record it has already finalised, it
  closes a closed channel.
\<close>

theorem finalisation_safe:
  assumes "run es New = Some s" and "j < nextid s"
  shows "\<not> crashed s \<and> finalise_calls (tasks s j) \<le> 1 \<and>
         is_closed (cancelCh (jrec (tasks s j))) = (finalise_calls (tasks s j) = 1) \<and>
         is_closed (runCh (jrec (tasks s j))) = (finalise_calls (tasks s j) = 1) \<and>
         (finalise_calls (tasks s j) = 1 \<longrightarrow> finalised (jrec (tasks s j))) \<and>
         (finalised (jrec (tasks s j)) \<longrightarrow>
            (\<forall>e s'. step e s = Some s' \<longrightarrow>
               \<not> crashed s' \<and>
               fst (queued (tasks s' j)) \<le> fst (queued (tasks s j)) \<and>
               snd (queued (tasks s' j)) \<le> snd (queued (tasks s j))))"
proof -
  have ok: "sys_ok s" using assms(1) by (rule sys_ok_reach)
  then have c: "chans_ok (tasks s j)" and nc: "\<not> crashed s"
    by (simp_all add: sys_ok_def task_ok_def)
  have later: "\<not> crashed s' \<and>
       fst (queued (tasks s' j)) \<le> fst (queued (tasks s j)) \<and>
       snd (queued (tasks s' j)) \<le> snd (queued (tasks s j))"
    if f: "finalised (jrec (tasks s j))" and st: "step e s = Some s'" for e s'
  proof -
    from sys_ok_step [OF ok st] have "\<not> crashed s'" by (simp add: sys_ok_def)
    moreover from step_task [OF st assms(2)]
    have "task_step (clock s) (tasks s j) (tasks s' j)" by simp
    from no_send_task_step [OF f this] have
      "fst (queued (tasks s' j)) \<le> fst (queued (tasks s j)) \<and>
       snd (queued (tasks s' j)) \<le> snd (queued (tasks s j))" .
    ultimately show ?thesis by simp
  qed
  from c nc have "\<not> crashed s \<and> finalise_calls (tasks s j) \<le> 1 \<and>
         is_closed (cancelCh (jrec (tasks s j))) = (finalise_calls (tasks s j) = 1) \<and>
         is_closed (runCh (jrec (tasks s j))) = (finalise_calls (tasks s j) = 1) \<and>
         (finalise_calls (tasks s j) = 1 \<longrightarrow> finalised (jrec (tasks s j)))"
    by (simp add: chans_ok_def)
  with later show ?thesis by blast
qed

theorem finalisation_safe_witness:
  "run trace_cancelled New \<noteq> None \<and>
   0 < nextid (the (run trace_cancelled New)) \<and>
   \<not> crashed (the (run trace_cancelled New)) \<and>
   finalise_calls (tasks (the (run trace_cancelled New)) 0) = 1 \<and>
   is_closed (cancelCh (jrec (tasks (the (run trace_cancelled New)) 0))) \<and>
   is_closed (runCh (jrec (tasks (the (run trace_cancelled New)) 0))) \<and>
   finalised (jrec (tasks (the (run trace_cancelled New)) 0))"
proof -
  have "run trace_cancelled New \<noteq> None"
    by (simp add: trace_cancelled_def exec_defs)
  then obtain s where r: "run trace_cancelled New = Some s" by blast
  have n: "0 < nextid s" and f: "finalise_calls (tasks s 0) = 1"
    using r by (auto simp: trace_cancelled_def exec_defs)
  from finalisation_safe [OF r n] f r n show ?thesis by simp
qed

text \<open>
  \<open>finaliseJob\<close> on a fresh record returns the finalised record; on that record it panics.
\<close>

theorem finaliseJob_twice_counterexample:
  "finaliseJob (new_job False) = (Returns (), finalised_job) \<and> finalised finalised_job \<and>
   is_closed (cancelCh finalised_job) \<and> fst (finaliseJob finalised_job) = Panics"
  by (simp add: finaliseJob_def chan_close_def new_job_def make_chan_def finalised_job_def)

text \<open>
  Claim C3, as amended. Take a job that is not periodic, in any reachable state. If
  \<open>CancelJob\<close> on the record has returned nil, then the record is marked finalised and the
  registry does not point to it; no \<open>RunJob\<close> is pending on it and none can signal it, the run
  channel is empty, and the job function has not been started on the run signal; while the
  runner is at its select the cancel notification is waiting in the cancel channel; and the
  job function has been started only if the select took the timer branch, with the clock at or
  after the scheduled time. A runner that has taken the cancel branch has not started the job
  function. While the job function is executing, no name of the registry points to the
  record, so \<open>CancelJob\<close> on any name leaves the task untouched, and on the job's own name it
  returns \<open>ErrNoSuchJob\<close> unless the name has been registered again for another record. The
  claim as stated is refuted by \<open>cancel_races_counterexample\<close>.
\<close>

theorem cancel_one_off:
  assumes "run es New = Some s" and "\<not> periodic (jrec (tasks s j))"
  shows "(0 < cancel_ok (tasks s j) \<longrightarrow>
            finalised (jrec (tasks s j)) \<and> (\<forall>n. jobs s n \<noteq> Some j) \<and>
            pend_run (tasks s j) = 0 \<and> step (RunJobSignal j) s = None \<and>
            buf (runCh (jrec (tasks s j))) = 0 \<and>
            BRun \<notin> set (picks (tasks s j)) \<and> started_signal (tasks s j) = 0 \<and>
            (pc (tasks s j) = AtSelect \<longrightarrow> buf (cancelCh (jrec (tasks s j))) = 1) \<and>
            (0 < started_timer (tasks s j) \<longrightarrow>
               picks (tasks s j) = [BTimer] \<and> runtime (tasks s j) \<le> clock s)) \<and>
         (BCancel \<in> set (picks (tasks s j)) \<longrightarrow>
            started_timer (tasks s j) = 0 \<and> started_signal (tasks s j) = 0) \<and>
         (pc (tasks s j) = RunExec \<or> pc (tasks s j) = TimerExec \<longrightarrow>
            (\<forall>n. jobs s n \<noteq> Some j) \<and>
            (\<forall>n. tasks (snd (CancelJob s n)) j = tasks s j) \<and>
            (jobs s (jname (tasks s j)) = None \<longrightarrow>
               CancelJob s (jname (tasks s j)) = (Returns (Some ErrNoSuchJob), s)))"
proof -
  have ok: "sys_ok s" using assms(1) by (rule sys_ok_reach)
  then have o: "oneoff_ok (tasks s j)" and td: "timer_due (clock s) (tasks s j)"
    and ch: "chans_ok (tasks s j)"
    by (simp_all add: sys_ok_def task_ok_def)
  have cs: "cancel_src (tasks s j)" using assms(1) by (rule cancel_src_reach)
  note st = oneoff_started [OF o td assms(2)]
  have won: "finalised (jrec (tasks s j)) \<and> (\<forall>n. jobs s n \<noteq> Some j) \<and>
            pend_run (tasks s j) = 0 \<and> step (RunJobSignal j) s = None \<and>
            buf (runCh (jrec (tasks s j))) = 0 \<and>
            BRun \<notin> set (picks (tasks s j)) \<and> started_signal (tasks s j) = 0 \<and>
            (pc (tasks s j) = AtSelect \<longrightarrow> buf (cancelCh (jrec (tasks s j))) = 1) \<and>
            (0 < started_timer (tasks s j) \<longrightarrow>
               picks (tasks s j) = [BTimer] \<and> runtime (tasks s j) \<le> clock s)"
    if c: "0 < cancel_ok (tasks s j)"
  proof -
    from cs c assms(2) have f: "finalised (jrec (tasks s j))" "pend_run (tasks s j) = 0"
      "buf (runCh (jrec (tasks s j))) = 0" "BRun \<notin> set (picks (tasks s j))"
      by (simp_all add: cancel_src_def)
    have u: "\<forall>n. jobs s n \<noteq> Some j"
      using registered_registrable [OF ok, of _ j] c by (auto simp: registrable_def)
    have r: "step (RunJobSignal j) s = None" using f(2) by (simp add: step_def)
    have d: "pc (tasks s j) = AtSelect \<longrightarrow> buf (cancelCh (jrec (tasks s j))) = 1"
      using cancel_delivered [OF ch cs c] st by blast
    from f u r d st show ?thesis by blast
  qed
  have b: "\<forall>n. jobs s n \<noteq> Some j"
    if "pc (tasks s j) = RunExec \<or> pc (tasks s j) = TimerExec"
    using registered_registrable [OF ok, of _ j] that assms(2)
    by (auto simp: registrable_def)
  have c: "jobs s (jname (tasks s j)) = None \<longrightarrow>
               CancelJob s (jname (tasks s j)) = (Returns (Some ErrNoSuchJob), s)"
    by (simp add: CancelJob_def CancelJob_lookup_def)
  from won st b c CancelJob_other_task [of s _ j] show ?thesis by blast
qed

theorem cancel_one_off_witness:
  "run trace_cancel_waiting New \<noteq> None \<and>
   cancel_ok (tasks (the (run trace_cancel_waiting New)) 0) = 1 \<and>
   pc (tasks (the (run trace_cancel_waiting New)) 0) = AtSelect \<and>
   finalised (jrec (tasks (the (run trace_cancel_waiting New)) 0)) \<and>
   buf (cancelCh (jrec (tasks (the (run trace_cancel_waiting New)) 0))) = 1 \<and>
   step (RunJobSignal 0) (the (run trace_cancel_waiting New)) = None \<and>
   run trace_cancel_then_timer New \<noteq> None \<and>
   cancel_ok (tasks (the (run trace_cancel_then_timer New)) 0) = 1 \<and>
   started_timer (tasks (the (run trace_cancel_then_timer New)) 0) = 1 \<and>
   picks (tasks (the (run trace_cancel_then_timer New)) 0) = [BTimer] \<and>
   runtime (tasks (the (run trace_cancel_then_timer New)) 0)
     \<le> clock (the (run trace_cancel_then_timer New)) \<and>
   run trace_timer_exec New \<noteq> None \<and>
   pc (tasks (the (run trace_timer_exec New)) 0) = TimerExec \<and>
   jname (tasks (the (run trace_timer_exec New)) 0) = ''A'' \<and>
   jobs (the (run trace_timer_exec New)) ''A'' = None \<and>
   CancelJob (the (run trace_timer_exec New)) ''A'' =
     (Returns (Some ErrNoSuchJob), the (run trace_timer_exec New)) \<and>
   run trace_cancelled New \<noteq> None \<and>
   BCancel \<in> set (picks (tasks (the (run trace_cancelled New)) 0)) \<and>
   started_timer (tasks (the (run trace_cancelled New)) 0) = 0 \<and>
   started_signal (tasks (the (run trace_cancelled New)) 0) = 0"
proof -
  have "run trace_cancel_waiting New \<noteq> None"
    by (simp add: trace_cancel_waiting_def exec_defs)
  then obtain w where r0: "run trace_cancel_waiting New = Some w" by blast
  have p0: "\<not> periodic (jrec (tasks w 0))" "cancel_ok (tasks w 0) = 1"
    "pc (tasks w 0) = AtSelect"
    using r0 by (auto simp: trace_cancel_waiting_def exec_defs)
  have "run trace_cancel_then_timer New \<noteq> None"
    by (simp add: trace_cancel_then_timer_def exec_defs)
  then obtain v where r1: "run trace_cancel_then_timer New = Some v" by blast
  have p1: "\<not> periodic (jrec (tasks v 0))" "cancel_ok (tasks v 0) = 1"
    "started_timer (tasks v 0) = 1"
    using r1 by (auto simp: trace_cancel_then_timer_def exec_defs)
  have "run trace_timer_exec New \<noteq> None"
    by (simp add: trace_timer_exec_def exec_defs)
  then obtain s where r: "run trace_timer_exec New = Some s" by blast
  have p: "\<not> periodic (jrec (tasks s 0))" "pc (tasks s 0) = TimerExec"
    "jname (tasks s 0) = ''A''" "jobs s ''A'' = None"
    using r by (auto simp: trace_timer_exec_def exec_defs)
  have "run trace_cancelled New \<noteq> None"
    by (simp add: trace_cancelled_def exec_defs)
  then obtain u where r2: "run trace_cancelled New = Some u" by blast
  have q: "\<not> periodic (jrec (tasks u 0))" "BCancel \<in> set (picks (tasks u 0))"
    using r2 by (auto simp: trace_cancelled_def exec_defs)
  from cancel_one_off [OF r0 p0(1)] p0
  have a0: "finalised (jrec (tasks w 0)) \<and> buf (cancelCh (jrec (tasks w 0))) = 1 \<and>
      step (RunJobSignal 0) w = None" by simp
  from cancel_one_off [OF r1 p1(1)] p1
  have a1: "picks (tasks v 0) = [BTimer] \<and> runtime (tasks v 0) \<le> clock v" by simp
  from cancel_one_off [OF r p(1)] p
  have a2: "CancelJob s ''A'' = (Returns (Some ErrNoSuchJob), s)" by auto
  from cancel_one_off [OF r2 q(1)] q
  have a3: "started_timer (tasks u 0) = 0 \<and> started_signal (tasks u 0) = 0" by blast
  from a0 a1 a2 a3 r0 r1 r r2 p0 p1 p q show ?thesis by simp
qed

text \<open>
  Two runs. In the first, \<open>CancelJob\<close> returns nil at time 0 for a job scheduled for time 1;
  the clock reaches 1, the select takes the timer branch although the cancel channel is ready,
  and the job function is executing. In the second, the job function of a job scheduled for
  time 0 is executing and \<open>CancelJob\<close> on its name returns \<open>ErrNoSuchJob\<close>, not nil.
\<close>

theorem cancel_races_counterexample:
  "run trace_cancel_then_timer New \<noteq> None \<and>
   \<not> periodic (jrec (tasks (the (run trace_cancel_then_timer New)) 0)) \<and>
   cancel_ok (tasks (the (run trace_cancel_then_timer New)) 0) = 1 \<and>
   pc (tasks (the (run trace_cancel_then_timer New)) 0) = TimerExec \<and>
   started_timer (tasks (the (run trace_cancel_then_timer New)) 0) = 1 \<and>
   run trace_timer_exec New \<noteq> None \<and>
   \<not> periodic (jrec (tasks (the (run trace_timer_exec New)) 0)) \<and>
   pc (tasks (the (run trace_timer_exec New)) 0) = TimerExec \<and>
   started_timer (tasks (the (run trace_timer_exec New)) 0) = 1 \<and>
   fst (CancelJob (the (run trace_timer_exec New)) ''A'') = Returns (Some ErrNoSuchJob)"
  by (simp add: trace_cancel_then_timer_def trace_timer_exec_def exec_defs)

text \<open>
  Claim C4. A periodic job is scheduled, in any reachable state, with a runtime callable whose
  results are the times \<open>ts\<close> followed by \<open>x\<close>, where \<open>x\<close> is \<open>ErrNoMoreInstances\<close> or another
  error; so \<open>x\<close> is the result of invocation number \<open>length ts + 1\<close>. Afterwards anything may
  happen in the service except that the context of this job is cancelled or that \<open>RunJob\<close> or
  \<open>CancelJob\<close> is called on its name (\<open>quiet\<close>). Then in every state of every such run no
  panic has happened, the job function has never been started on a run signal, and it has been
  started at most \<open>length ts\<close> times. When the runner has ended, the job function has been
  started exactly \<open>length ts\<close> times, the registry does not point to the record, the record is
  finalised with both channels closed by a single call of \<open>finaliseJob\<close>, and an error has
  been logged exactly when \<open>x\<close> is not the sentinel. The runner can always be brought to its
  end by ticks of the clock and its own steps alone. No call returns the sentinel to a caller:
  \<open>SchedulePeriodicJob\<close> has returned nil before the runner starts.
\<close>

theorem periodic_until_sentinel:
  assumes "run es0 New = Some s0" and "x = NoMoreInstances \<or> x = Failed"
    and "SchedulePeriodicJob s0 name (Some (map At ts @ x # rest)) jf = (None, s1)"
    and "\<forall>e\<in>set es. quiet name (nextid s0) e" and "run es s1 = Some s"
  shows "\<not> crashed s \<and> started_signal (tasks s (nextid s0)) = 0 \<and>
         started_timer (tasks s (nextid s0)) \<le> length ts \<and>
         (pc (tasks s (nextid s0)) = Exited \<longrightarrow>
            started_timer (tasks s (nextid s0)) = length ts \<and>
            (\<forall>n. jobs s n \<noteq> Some (nextid s0)) \<and>
            finalised (jrec (tasks s (nextid s0))) \<and>
            is_closed (cancelCh (jrec (tasks s (nextid s0)))) \<and>
            is_closed (runCh (jrec (tasks s (nextid s0)))) \<and>
            finalise_calls (tasks s (nextid s0)) = 1 \<and>
            errors_logged (tasks s (nextid s0)) = (if x = Failed then 1 else 0)) \<and>
         (\<exists>es' s'. set es' \<subseteq> timer_events (nextid s0) \<and> run es' s = Some s' \<and>
            pc (tasks s' (nextid s0)) = Exited)"
proof -
  have "sys_ok s0" using assms(1) by (rule sys_ok_reach)
  then have "timer_sys name ts x rest (nextid s0) s1"
    using assms(2,3) by (rule timer_sys_spawn)
  from timer_sys_run [OF this assms(4,5)]
  have ts: "timer_sys name ts x rest (nextid s0) s" .
  then have t: "timer_only ts x rest (tasks s (nextid s0))" and ok: "sys_ok s"
    and gone: "pc (tasks s (nextid s0)) = Exited \<longrightarrow> (\<forall>n. jobs s n \<noteq> Some (nextid s0))"
    by (simp_all add: timer_sys_def)
  have nc: "\<not> crashed s" using ok by (simp add: sys_ok_def)
  have a: "started_signal (tasks s (nextid s0)) = 0 \<and>
         started_timer (tasks s (nextid s0)) \<le> length ts \<and>
         (pc (tasks s (nextid s0)) = Exited \<longrightarrow>
            started_timer (tasks s (nextid s0)) = length ts \<and>
            finalised (jrec (tasks s (nextid s0))) \<and>
            is_closed (cancelCh (jrec (tasks s (nextid s0)))) \<and>
            is_closed (runCh (jrec (tasks s (nextid s0)))) \<and>
            finalise_calls (tasks s (nextid s0)) = 1 \<and>
            errors_logged (tasks s (nextid s0)) = (if x = Failed then 1 else 0))"
    using t
    by (cases "pc (tasks s (nextid s0))")
       (auto simp: timer_only_def iterating_def stopping_def stopped_def)
  from a nc gone timer_sys_completes [OF ts] show ?thesis by blast
qed

theorem periodic_until_sentinel_witness:
  "SchedulePeriodicJob New ''B'' (Some [At 0, At 1, NoMoreInstances]) (Some ()) = (None, periodic_B) \<and>
   run trace_two_runs periodic_B \<noteq> None \<and>
   pc (tasks (the (run trace_two_runs periodic_B)) 0) = Exited \<and>
   started_timer (tasks (the (run trace_two_runs periodic_B)) 0) = 2 \<and>
   jobs (the (run trace_two_runs periodic_B)) ''B'' \<noteq> Some 0 \<and>
   finalised (jrec (tasks (the (run trace_two_runs periodic_B)) 0)) \<and>
   errors_logged (tasks (the (run trace_two_runs periodic_B)) 0) = 0 \<and>
   run trace_one_run failing_C \<noteq> None \<and>
   pc (tasks (the (run trace_one_run failing_C)) 0) = Exited \<and>
   started_timer (tasks (the (run trace_one_run failing_C)) 0) = 1 \<and>
   jobs (the (run trace_one_run failing_C)) ''C'' \<noteq> Some 0 \<and>
   finalised (jrec (tasks (the (run trace_one_run failing_C)) 0)) \<and>
   errors_logged (tasks (the (run trace_one_run failing_C)) 0) = 1"
proof -
  have n: "run [] New = Some New" "nextid New = 0" by (simp_all add: New_def)
  have b: "SchedulePeriodicJob New ''B'' (Some (map At [0, 1] @ NoMoreInstances # [])) (Some ())
      = (None, periodic_B)"
    by (simp add: periodic_B_def SchedulePeriodicJob_def New_def)
  have c: "SchedulePeriodicJob New ''C'' (Some (map At [0] @ Failed # [])) (Some ())
      = (None, failing_C)"
    by (simp add: failing_C_def SchedulePeriodicJob_def New_def)
  have e1: "\<forall>e\<in>set trace_two_runs. quiet ''B'' (nextid New) e"
    and e2: "\<forall>e\<in>set trace_one_run. quiet ''C'' (nextid New) e"
    by (simp_all add: trace_two_runs_def trace_one_run_def quiet_def n)
  have "run trace_two_runs periodic_B \<noteq> None"
    by (simp add: trace_two_runs_def periodic_B_def exec_defs)
  then obtain s where r1: "run trace_two_runs periodic_B = Some s" by blast
  have p1: "pc (tasks s 0) = Exited"
    using r1 by (auto simp: trace_two_runs_def periodic_B_def exec_defs)
  have "run trace_one_run failing_C \<noteq> None"
    by (simp add: trace_one_run_def failing_C_def exec_defs)
  then obtain u where r2: "run trace_one_run failing_C = Some u" by blast
  have p2: "pc (tasks u 0) = Exited"
    using r2 by (auto simp: trace_one_run_def failing_C_def exec_defs)
  from periodic_until_sentinel [OF n(1) _ b e1 r1] p1 n
  have a1: "started_timer (tasks s 0) = 2 \<and> jobs s ''B'' \<noteq> Some 0 \<and>
      finalised (jrec (tasks s 0)) \<and> errors_logged (tasks s 0) = 0" by simp
  from periodic_until_sentinel [OF n(1) _ c e2 r2] p2 n
  have a2: "started_timer (tasks u 0) = 1 \<and> jobs u ''C'' \<noteq> Some 0 \<and>
      finalised (jrec (tasks u 0)) \<and> errors_logged (tasks u 0) = 1" by simp
  from b a1 a2 r1 r2 p1 p2 show ?thesis by simp
qed







text \<open>
  Claim C7, as amended. The checks of \<open>ScheduleJob\<close> are made in the order empty name, absent
  job callable, name already registered, and those of \<open>SchedulePeriodicJob\<close> in the order empty
  name, absent runtime callable, absent job callable, name already registered. The first check
  that fails decides the error: \<open>ErrNoJobName\<close>, \<open>ErrNoRuntimeFunc\<close>, \<open>ErrNoJobFunc\<close>,
  \<open>ErrJobAlreadyExists\<close>. Whenever either call returns an error the service is unchanged:
  the registry is as before and no runner has been started. The claim as stated is refuted by
  \<open>schedule_order_counterexample\<close>.
\<close>

theorem schedule_validation:
  "(name = [] \<longrightarrow> ScheduleJob s name rt jf = (Some ErrNoJobName, s)
                \<and> SchedulePeriodicJob s name rf jf = (Some ErrNoJobName, s)) \<and>
   (name \<noteq> [] \<and> jf = None \<longrightarrow> ScheduleJob s name rt jf = (Some ErrNoJobFunc, s)) \<and>
   (name \<noteq> [] \<and> jf \<noteq> None \<and> jobs s name \<noteq> None \<longrightarrow>
      ScheduleJob s name rt jf = (Some ErrJobAlreadyExists, s)) \<and>
   (name \<noteq> [] \<and> rf = None \<longrightarrow> SchedulePeriodicJob s name rf jf = (Some ErrNoRuntimeFunc, s)) \<and>
   (name \<noteq> [] \<and> rf \<noteq> None \<and> jf = None \<longrightarrow>
      SchedulePeriodicJob s name rf jf = (Some ErrNoJobFunc, s)) \<and>
   (name \<noteq> [] \<and> rf \<noteq> None \<and> jf \<noteq> None \<and> jobs s name \<noteq> None \<longrightarrow>
      SchedulePeriodicJob s name rf jf = (Some ErrJobAlreadyExists, s)) \<and>
   (fst (ScheduleJob s name rt jf) \<noteq> None \<longrightarrow> snd (ScheduleJob s name rt jf) = s) \<and>
   (fst (SchedulePeriodicJob s name rf jf) \<noteq> None \<longrightarrow> snd (SchedulePeriodicJob s name rf jf) = s)"
  by (auto simp: ScheduleJob_def SchedulePeriodicJob_def split: option.splits)

theorem schedule_validation_witness:
  "ScheduleJob New [] 5 (Some ()) = (Some ErrNoJobName, New) \<and>
   SchedulePeriodicJob New [] (Some [At 1]) (Some ()) = (Some ErrNoJobName, New) \<and>
   ScheduleJob New ''A'' 5 None = (Some ErrNoJobFunc, New) \<and>
   SchedulePeriodicJob New ''A'' None (Some ()) = (Some ErrNoRuntimeFunc, New) \<and>
   SchedulePeriodicJob New ''A'' (Some [At 1]) None = (Some ErrNoJobFunc, New) \<and>
   jobs registered_A ''A'' \<noteq> None \<and>
   ScheduleJob registered_A ''A'' 7 (Some ()) = (Some ErrJobAlreadyExists, registered_A) \<and>
   SchedulePeriodicJob registered_A ''A'' (Some [At 1]) (Some ()) =
     (Some ErrJobAlreadyExists, registered_A)"
proof -
  have reg: "jobs registered_A ''A'' \<noteq> None"
    by (simp add: registered_A_def ScheduleJob_def spawn_def New_def)
  show ?thesis
    using reg
      schedule_validation [of "[]" New 5 "Some ()" "Some [At 1]"]
      schedule_validation [of "''A''" New 5 "Some ()" None]
      schedule_validation [of "''A''" New 5 None "Some [At 1]"]
      schedule_validation [of "''A''" registered_A 7 "Some ()" "Some [At 1]"]
    by simp
qed

text \<open>
  A call with an empty name and no job callable returns \<open>ErrNoJobName\<close>, not \<open>ErrNoJobFunc\<close>;
  a call with neither callable returns \<open>ErrNoRuntimeFunc\<close>; calls on a registered name with a
  callable missing return the error for the callable, not \<open>ErrJobAlreadyExists\<close>.
\<close>

theorem schedule_order_counterexample:
  "fst (ScheduleJob New [] 5 None) = Some ErrNoJobName \<and>
   fst (SchedulePeriodicJob New ''A'' None None) = Some ErrNoRuntimeFunc \<and>
   jobs registered_A ''A'' = Some 0 \<and>
   fst (ScheduleJob registered_A ''A'' 7 None) = Some ErrNoJobFunc \<and>
   fst (SchedulePeriodicJob registered_A ''A'' None (Some ())) = Some ErrNoRuntimeFunc \<and>
   fst (SchedulePeriodicJob registered_A ''A'' (Some [At 1]) None) = Some ErrNoJobFunc"
  by (simp add: registered_A_def ScheduleJob_def SchedulePeriodicJob_def spawn_def New_def)




text \<open>
  Claim C9, as amended. In every reachable state, neither critical section of \<open>RunJob\<close> and
  \<open>RunJobIfExists\<close> changes the registry for a periodic job: the lookup leaves the registry as
  it is, and so does \<open>runJob\<close>, which is the step \<open>RunJobSignal\<close> of an interleaving. A call
  that runs without another goroutine in between, on the name of a registered periodic job,
  therefore leaves the name reported by \<open>JobExists\<close> and \<open>ListJobs\<close>, and it does not return
  \<open>ErrJobFinalised\<close>. \<open>runJob\<close> returns \<open>ErrJobFinalised\<close> only on a record the registry no
  longer points to: \<open>CancelJob\<close> or the runner has removed the entry after the lookup. The
  claim as stated is refuted by \<open>RunJob_finalised_counterexample\<close>.
\<close>

theorem RunJob_keeps_periodic:
  assumes "run es New = Some s"
  shows "(jobs s name = Some j \<and> periodic (jrec (tasks s j)) \<longrightarrow>
            jobs (snd (RunJob_lookup s name)) = jobs s \<and>
            jobs (snd (RunJob s name)) = jobs s \<and>
            jobs (snd (RunJobIfExists s name)) = jobs s \<and>
            JobExists (snd (RunJob s name)) name \<and> name \<in> ListJobs (snd (RunJob s name)) \<and>
            JobExists (snd (RunJobIfExists s name)) name \<and>
            name \<in> ListJobs (snd (RunJobIfExists s name)) \<and>
            fst (RunJob s name) \<noteq> Returns (Some ErrJobFinalised)) \<and>
         jobs (snd (runJob_at s k)) = jobs s \<and>
         (step (RunJobSignal k) s = Some s' \<longrightarrow> s' = snd (runJob_at s k)) \<and>
         (fst (runJob_at s k) = Returns (Some ErrJobFinalised) \<longrightarrow> (\<forall>n. jobs s n \<noteq> Some k))"
proof -
  have ok: "sys_ok s" using assms by (rule sys_ok_reach)
  have gone: "\<forall>n. jobs s n \<noteq> Some k" if "fst (runJob_at s k) = Returns (Some ErrJobFinalised)"
  proof
    fix n
    show "jobs s n \<noteq> Some k"
    proof
      assume "jobs s n = Some k"
      from sys_ok_registered [OF ok this] have "\<not> finalised (jrec (tasks s k))"
        by (simp add: registrable_def)
      with runJob_at_finalised [OF that] show False by simp
    qed
  qed
  have reg: "jobs (snd (RunJob_lookup s name)) = jobs s \<and>
            jobs (snd (RunJob s name)) = jobs s \<and>
            jobs (snd (RunJobIfExists s name)) = jobs s \<and>
            JobExists (snd (RunJob s name)) name \<and> name \<in> ListJobs (snd (RunJob s name)) \<and>
            JobExists (snd (RunJobIfExists s name)) name \<and>
            name \<in> ListJobs (snd (RunJobIfExists s name)) \<and>
            fst (RunJob s name) \<noteq> Returns (Some ErrJobFinalised)"
    if j: "jobs s name = Some j" and p: "periodic (jrec (tasks s j))"
  proof -
    have l: "jobs (snd (RunJob_lookup s name)) = jobs s"
      using j p by (simp add: RunJob_lookup_def)
    have r: "RunJob s name = runJob_at (snd (RunJob_lookup s name)) j"
      using j by (simp add: RunJob_def RunJob_lookup_def)
    have a: "jobs (snd (RunJob s name)) = jobs s"
      unfolding r by (simp add: runJob_at_jobs l)
    have b: "jobs (snd (RunJobIfExists s name)) = jobs s"
      using a by (simp add: RunJobIfExists_jobs)
    from sys_ok_registered [OF ok j] have "\<not> finalised (jrec (tasks s j))"
      by (simp add: registrable_def)
    then have "\<not> finalised (jrec (tasks (snd (RunJob_lookup s name)) j))"
      by (simp add: RunJob_lookup_jrec [OF j])
    with runJob_at_finalised [of "snd (RunJob_lookup s name)" j]
    have c: "fst (RunJob s name) \<noteq> Returns (Some ErrJobFinalised)"
      unfolding r by blast
    from l a b c j show ?thesis by (simp add: JobExists_def ListJobs_def dom_def)
  qed
  from reg gone runJob_at_jobs [of s k] step_RunJobSignal [of k s s'] show ?thesis by blast
qed

theorem RunJob_keeps_periodic_witness:
  "run [CallSchedulePeriodicJob ''B'' (Some [At 0, At 1, NoMoreInstances]) (Some ())] New
     = Some periodic_B \<and>
   jobs periodic_B ''B'' = Some 0 \<and> periodic (jrec (tasks periodic_B 0)) \<and>
   fst (RunJob periodic_B ''B'') = Returns None \<and>
   JobExists (snd (RunJob periodic_B ''B'')) ''B'' \<and>
   ''B'' \<in> ListJobs (snd (RunJobIfExists periodic_B ''B'')) \<and>
   run trace_executing New \<noteq> None \<and>
   pc (tasks (the (run trace_executing New)) 0) = TimerExec \<and>
   fst (RunJob (the (run trace_executing New)) ''B'') = Returns (Some ErrJobRunning) \<and>
   JobExists (snd (RunJob (the (run trace_executing New)) ''B'')) ''B'' \<and>
   ''B'' \<in> ListJobs (snd (RunJob (the (run trace_executing New)) ''B'')) \<and>
   run trace_retired New \<noteq> None \<and>
   fst (runJob_at (the (run trace_retired New)) 0) = Returns (Some ErrJobFinalised) \<and>
   jobs (the (run trace_retired New)) ''B'' \<noteq> Some 0"
proof -
  have r1: "run [CallSchedulePeriodicJob ''B'' (Some [At 0, At 1, NoMoreInstances]) (Some ())] New
     = Some periodic_B"
    by (simp add: periodic_B_def step_def New_def)
  have h1: "jobs periodic_B ''B'' = Some 0" "periodic (jrec (tasks periodic_B 0))"
    "fst (RunJob periodic_B ''B'') = Returns None"
    by (simp_all add: periodic_B_def exec_defs)
  have "run trace_executing New \<noteq> None"
    by (simp add: trace_executing_def exec_defs)
  then obtain s where r2: "run trace_executing New = Some s" by blast
  have h2: "jobs s ''B'' = Some 0" "periodic (jrec (tasks s 0))" "pc (tasks s 0) = TimerExec"
    "fst (RunJob s ''B'') = Returns (Some ErrJobRunning)"
    using r2 by (auto simp: trace_executing_def exec_defs)
  have "run trace_retired New \<noteq> None"
    by (simp add: trace_retired_def exec_defs)
  then obtain u where r3: "run trace_retired New = Some u" by blast
  have h3: "fst (runJob_at u 0) = Returns (Some ErrJobFinalised)"
    using r3 by (auto simp: trace_retired_def exec_defs)
  from RunJob_keeps_periodic [OF r1, of "''B''" 0 0 undefined] h1
  have a: "JobExists (snd (RunJob periodic_B ''B'')) ''B'' \<and>
      ''B'' \<in> ListJobs (snd (RunJobIfExists periodic_B ''B''))" by blast
  from RunJob_keeps_periodic [OF r2, of "''B''" 0 0 undefined] h2
  have b: "JobExists (snd (RunJob s ''B'')) ''B'' \<and> ''B'' \<in> ListJobs (snd (RunJob s ''B''))"
    by blast
  from RunJob_keeps_periodic [OF r3, of "''B''" 0 0 undefined] h3
  have c: "jobs u ''B'' \<noteq> Some 0" by blast
  from r1 r2 r3 h1 h2 h3 a b c show ?thesis by simp
qed

text \<open>
  \<open>RunJob\<close> finds the periodic job, \<open>CancelJob\<close> removes the entry and stores finalised, then
  \<open>runJob\<close> returns \<open>ErrJobFinalised\<close>: after this return the job is not visible.
\<close>

theorem RunJob_finalised_counterexample:
  "run trace_retired New \<noteq> None \<and>
   periodic (jrec (tasks (the (run trace_retired New)) 0)) \<and>
   pend_run (tasks (the (run trace_retired New)) 0) = 1 \<and>
   fst (runJob_at (the (run trace_retired New)) 0) = Returns (Some ErrJobFinalised) \<and>
   \<not> JobExists (snd (runJob_at (the (run trace_retired New)) 0)) ''B'' \<and>
   ''B'' \<notin> ListJobs (snd (runJob_at (the (run trace_retired New)) 0))"
  by (simp add: trace_retired_def exec_defs)

text \<open>
  Claim C10. \<open>chainID\<close> returns a value and a nil error exactly when the post has returned a
  reader, the body decodes, and the \<open>Result\<close> field without a leading \<open>0x\<close> is a non-empty
  string of hexadecimal digits whose value fits 64 bits; the value returned is that number.
  Whenever it returns an error the value is zero. It returns an error when the post fails,
  when the reader is nil, when the body does not decode, and when the stripped \<open>Result\<close> is
  not such a string.
\<close>

theorem chainID_parses_hex:
  "(chainID post decode = (v, None) \<longleftrightarrow>
      (\<exists>body result. post = PostBody (Some body) \<and> decode body = Some result \<and>
         valid_hex64 (TrimPrefix result ''0x'') \<and>
         v = of_nat (the (hex_value 0 (TrimPrefix result ''0x''))))) \<and>
   (snd (chainID post decode) \<noteq> None \<longrightarrow> fst (chainID post decode) = 0) \<and>
   (post = PostError \<or> post = PostBody None \<or>
    (\<exists>body. post = PostBody (Some body) \<and>
       (decode body = None \<or>
        (\<exists>result. decode body = Some result \<and> \<not> valid_hex64 (TrimPrefix result ''0x''))))
    \<longrightarrow> snd (chainID post decode) \<noteq> None)"
proof -
  have p: "\<And>s. (\<exists>v. ParseUint s = Inr v) = valid_hex64 s"
    by (simp add: ParseUint_spec)
  have q: "\<And>s v. ParseUint s = Inr v \<Longrightarrow> v = of_nat (the (hex_value 0 s))"
    by (simp add: ParseUint_spec)
  show ?thesis
    apply (intro conjI)
      apply (cases post; simp add: chainID_def empty_reference_def split: option.splits sum.splits)
      apply (metis ParseUint_spec Inl_Inr_False sum.exhaust)
     apply (simp add: chainID_def empty_reference_def
        split: post_result.splits option.splits sum.splits)
    apply (auto simp: chainID_def empty_reference_def
        split: post_result.splits option.splits sum.splits)
    using p apply blast
    done
qed

theorem chainID_parses_hex_witness:
  "chainID (PostBody (Some ''resp'')) (decode_as ''0x1a'') = (26, None) \<and>
   chainID (PostBody (Some ''resp'')) (decode_as ''1A'') = (26, None) \<and>
   snd (chainID PostError (decode_as ''0x1a'')) \<noteq> None \<and>
   fst (chainID PostError (decode_as ''0x1a'')) = 0 \<and>
   snd (chainID (PostBody None) (decode_as ''0x1a'')) \<noteq> None \<and>
   snd (chainID (PostBody (Some ''junk'')) (decode_as ''0x1a'')) \<noteq> None \<and>
   snd (chainID (PostBody (Some ''resp'')) (decode_as ''0x'')) \<noteq> None \<and>
   snd (chainID (PostBody (Some ''resp'')) (decode_as ''0x10000000000000000'')) \<noteq> None \<and>
   fst (chainID (PostBody (Some ''resp'')) (decode_as ''0x10000000000000000'')) = 0"
proof -
  have v: "valid_hex64 (TrimPrefix ''0x1a'' ''0x'')" "hex_value 0 (TrimPrefix ''0x1a'' ''0x'') = Some 26"
    "valid_hex64 (TrimPrefix ''1A'' ''0x'')" "hex_value 0 (TrimPrefix ''1A'' ''0x'') = Some 26"
    "\<not> valid_hex64 (TrimPrefix ''0x'' ''0x'')"
    "\<not> valid_hex64 (TrimPrefix ''0x10000000000000000'' ''0x'')"
    by (simp_all add: valid_hex64_def hex_digit_value_def TrimPrefix_def)
  have d: "decode_as ''0x1a'' ''resp'' = Some ''0x1a''" "decode_as ''1A'' ''resp'' = Some ''1A''"
    "decode_as ''0x1a'' ''junk'' = None" "decode_as ''0x'' ''resp'' = Some ''0x''"
    "decode_as ''0x10000000000000000'' ''resp'' = Some ''0x10000000000000000''"
    by (simp_all add: decode_as_def)
  have a: "chainID (PostBody (Some ''resp'')) (decode_as ''0x1a'') = (26, None)"
    using chainID_parses_hex [of "PostBody (Some ''resp'')" "decode_as ''0x1a''" 26] v d by simp
  have b: "chainID (PostBody (Some ''resp'')) (decode_as ''1A'') = (26, None)"
    using chainID_parses_hex [of "PostBody (Some ''resp'')" "decode_as ''1A''" 26] v d by simp
  have c: "snd (chainID PostError (decode_as ''0x1a'')) \<noteq> None"
    "fst (chainID PostError (decode_as ''0x1a'')) = 0"
    using chainID_parses_hex [of PostError "decode_as ''0x1a''" 0] by blast+
  have e: "snd (chainID (PostBody None) (decode_as ''0x1a'')) \<noteq> None"
    using chainID_parses_hex [of "PostBody None" "decode_as ''0x1a''" 0] by blast
  have f: "snd (chainID (PostBody (Some ''junk'')) (decode_as ''0x1a'')) \<noteq> None"
    using chainID_parses_hex [of "PostBody (Some ''junk'')" "decode_as ''0x1a''" 0] d by blast
  have g: "snd (chainID (PostBody (Some ''resp'')) (decode_as ''0x'')) \<noteq> None"
    using chainID_parses_hex [of "PostBody (Some ''resp'')" "decode_as ''0x''" 0] d v by blast
  have h: "snd (chainID (PostBody (Some ''resp'')) (decode_as ''0x10000000000000000'')) \<noteq> None"
    using chainID_parses_hex [of "PostBody (Some ''resp'')" "decode_as ''0x10000000000000000''" 0]
      d v by blast
  have i: "fst (chainID (PostBody (Some ''resp'')) (decode_as ''0x10000000000000000'')) = 0"
    using chainID_parses_hex [of "PostBody (Some ''resp'')" "decode_as ''0x10000000000000000''" 0]
      h by blast
  from a b c e f g h i show ?thesis by blast
qed

end
